theory Spec2Isabelle
  imports Complex_Main "HOL-Library.AList"
begin

section \<open>Data model (types/chain.ts and the MediaObject interface)\<close>

text \<open>
  JavaScript numbers are modelled as integers: clock readings and delays are whole
  milliseconds, and the editors store headings, tolerances, thresholds and delays with
  \<^verbatim>\<open>parseInt\<close>. On integers of this size the double arithmetic of the source is
  exact. Fractional sensor readings and NaN are outside the model.
\<close>

datatype TriggerStatus = Idle | Armed | Triggered | Completed

datatype ConditionType = AfterTrigger | AllOf | AnyOf | TimerCondition | Never

record ChainCondition =
  ctype :: ConditionType
  triggerId :: "string option"
  triggerIds :: "string list option"
  delayMs :: "int option"

datatype TriggerType =
  Gps | Qr | Shake | Tilt | Compass | Touch | Hold | Timer | Proximity | Dice | Spinner | Ai

text \<open>
  The parameter bag \<^verbatim>\<open>Record<string, unknown>\<close>, restricted to the keys the modelled
  evaluators read; an absent key is \<open>None\<close>.
\<close>

record Params =
  radius :: "int option"
  code :: "string option"
  threshold :: "int option"
  heading :: "int option"
  tolerance :: "int option"
  delay :: "int option"

record Trigger =
  ttype :: TriggerType
  params :: Params

record Location =
  lat :: real
  lng :: real

text \<open>
  \<^verbatim>\<open>MediaObject\<close> with the chain fields of \<^verbatim>\<open>ChainedMediaObject\<close>. The field
  \<open>resetTimeout\<close> is \<^verbatim>\<open>number | null | undefined\<close> in the source; both readers use
  \<^verbatim>\<open>??\<close>, which treats null and undefined alike, so both are \<open>None\<close> here.
\<close>

record MediaObject =
  oid :: string
  location :: Location
  trigger :: Trigger
  active :: bool
  armCondition :: "ChainCondition option"
  repeatable :: "bool option"
  resetTimeout :: "int option"

section \<open>Host environment: clock, timers, local storage\<close>

text \<open>
  The callbacks handed to \<^verbatim>\<open>setTimeout\<close>, one constructor per closure of the source:
  the delayed status change of \<^verbatim>\<open>scheduleStatusChange\<close>, the deferred re-check of
  \<^verbatim>\<open>scheduleArmEvaluation\<close>, the automatic removal from the active set in
  \<^verbatim>\<open>notifyActivation\<close>, and the firing of a timer trigger in \<^verbatim>\<open>startTimerTriggers\<close>.
\<close>

datatype Callback =
  StatusChangeCb string TriggerStatus
| ArmEvaluationCb string
| AutoDeactivateCb string
| TimerTriggerCb MediaObject

record Snapshot =
  snapTriggerStatus :: "string \<rightharpoonup> TriggerStatus"
  snapStatusChangedAt :: "string \<rightharpoonup> int"
  snapTimestamp :: int

text \<open>
  One record holds the module state of chainState.ts (\<open>triggerStatus\<close>,
  \<open>statusChangedAt\<close>, \<open>pendingTimers\<close>, \<open>objects\<close>), the module state of triggers.ts
  (\<open>activeObjects\<close>, \<open>dismissedObjects\<close>, \<open>listeners\<close>, \<open>timerTimeouts\<close>) and the host:
  the clock \<open>now\<close> read by \<^verbatim>\<open>Date.now()\<close>, the table \<open>timers\<close> of pending timeouts
  (identifier, due time, callback), the next timer identifier, and the local-storage
  entry with a flag telling whether \<^verbatim>\<open>setItem\<close> succeeds. Observers are passive:
  \<open>received l\<close> lists the objects listener \<open>l\<close> has been called with, and \<open>statusLog\<close>
  the status changes broadcast to the status listeners. The two timer maps are
  association lists, since the source enumerates them.
\<close>

record World =
  now :: int
  timers :: "(nat \<times> int \<times> Callback) list"
  nextTimerId :: nat
  storage :: "Snapshot option"
  storageWritable :: bool
  triggerStatus :: "string \<rightharpoonup> TriggerStatus"
  statusChangedAt :: "string \<rightharpoonup> int"
  pendingTimers :: "(string \<times> nat) list"
  objects :: "MediaObject list"
  statusLog :: "(string \<times> TriggerStatus \<times> TriggerStatus option) list"
  activeObjects :: "string set"
  dismissedObjects :: "string set"
  listeners :: "nat set"
  received :: "nat \<Rightarrow> MediaObject list"
  timerTimeouts :: "(string \<times> nat) list"

text \<open>
  \<^verbatim>\<open>setTimeout\<close> registers a one-shot callback due \<open>delay\<close> ms from now (a negative
  delay counts as 0) and returns a fresh identifier; \<^verbatim>\<open>clearTimeout\<close> removes it.
\<close>

definition setTimeout :: "Callback \<Rightarrow> int \<Rightarrow> World \<Rightarrow> nat \<times> World" where
  "setTimeout cb delayms w =
     (nextTimerId w,
      w\<lparr>timers := timers w @ [(nextTimerId w, now w + max 0 delayms, cb)],
        nextTimerId := Suc (nextTimerId w)\<rparr>)"

definition clearTimeout :: "nat \<Rightarrow> World \<Rightarrow> World" where
  "clearTimeout t w = w\<lparr>timers := filter (\<lambda>e. fst e \<noteq> t) (timers w)\<rparr>"

text \<open>\<^verbatim>\<open>(x as number) || d\<close>: the default replaces an absent value and also 0.\<close>

definition numOr :: "int option \<Rightarrow> int \<Rightarrow> int" where
  "numOr x d = (case x of None \<Rightarrow> d | Some v \<Rightarrow> if v = 0 then d else v)"

text \<open>Truthiness of a timer identifier read from a map: present and not 0.\<close>

definition truthyTimer :: "nat option \<Rightarrow> bool" where
  "truthyTimer t = (case t of None \<Rightarrow> False | Some n \<Rightarrow> n \<noteq> 0)"

section \<open>Chain state machine (chainState.ts)\<close>

definition notifyStatusChange ::
  "string \<Rightarrow> TriggerStatus \<Rightarrow> TriggerStatus option \<Rightarrow> World \<Rightarrow> World" where
  "notifyStatusChange k s prev w = w\<lparr>statusLog := statusLog w @ [(k, s, prev)]\<rparr>"

definition getTriggerStatus :: "World \<Rightarrow> string \<Rightarrow> TriggerStatus" where
  "getTriggerStatus w k = (case triggerStatus w k of None \<Rightarrow> Idle | Some s \<Rightarrow> s)"

definition setTriggerStatus :: "string \<Rightarrow> TriggerStatus \<Rightarrow> World \<Rightarrow> World" where
  "setTriggerStatus k s w =
     (let previousStatus = triggerStatus w k in
      if previousStatus = Some s then w
      else notifyStatusChange k s previousStatus
             (w\<lparr>triggerStatus := (triggerStatus w)(k \<mapsto> s),
                statusChangedAt := (statusChangedAt w)(k \<mapsto> now w)\<rparr>))"

definition persistSessionState :: "World \<Rightarrow> World" where
  "persistSessionState w =
     (if storageWritable w
      then w\<lparr>storage := Some \<lparr>snapTriggerStatus = triggerStatus w,
                                snapStatusChangedAt = statusChangedAt w,
                                snapTimestamp = now w\<rparr>\<rparr>
      else w)"

definition scheduleStatusChange :: "string \<Rightarrow> TriggerStatus \<Rightarrow> int \<Rightarrow> World \<Rightarrow> World" where
  "scheduleStatusChange k newStatus delayms w =
     (let w1 = (case map_of (pendingTimers w) k of
                  None \<Rightarrow> w
                | Some existingTimer \<Rightarrow>
                    if existingTimer \<noteq> 0 then clearTimeout existingTimer w else w);
          (timerId, w2) = setTimeout (StatusChangeCb k newStatus) delayms w1
      in w2\<lparr>pendingTimers := AList.update k timerId (pendingTimers w2)\<rparr>)"

definition scheduleArmEvaluation :: "string \<Rightarrow> int \<Rightarrow> World \<Rightarrow> World" where
  "scheduleArmEvaluation k delayms w =
     (if truthyTimer (map_of (pendingTimers w) (''arm-'' @ k)) then w
      else (let (timerId, w1) = setTimeout (ArmEvaluationCb k) delayms w
            in w1\<lparr>pendingTimers := AList.update (''arm-'' @ k) timerId (pendingTimers w1)\<rparr>))"

text \<open>The test \<^verbatim>\<open>s === 'completed' || s === 'triggered'\<close> on a looked-up status.\<close>

definition fired :: "TriggerStatus option \<Rightarrow> bool" where
  "fired s = (s = Some Completed \<or> s = Some Triggered)"

text \<open>
  \<^verbatim>\<open>evaluateArmCondition\<close> returns its verdict and the world, which it changes only
  by scheduling a deferred re-check. The second argument is unused, as in the source.
  A \<^verbatim>\<open>triggerId\<close> that is absent or the empty string, and a \<^verbatim>\<open>delayMs\<close> that is
  absent or 0, are falsy.
\<close>

definition evaluateArmCondition ::
  "MediaObject \<Rightarrow> MediaObject list option \<Rightarrow> World \<Rightarrow> bool \<times> World" where
  "evaluateArmCondition t allTriggers w =
     (case armCondition t of
        None \<Rightarrow> (True, w)
      | Some c \<Rightarrow>
         (case ctype c of
            Never \<Rightarrow> (False, w)
          | AfterTrigger \<Rightarrow>
             (case triggerId c of
                None \<Rightarrow> (True, w)
              | Some d \<Rightarrow>
                 if d = [] then (True, w)
                 else if \<not> fired (triggerStatus w d) then (False, w)
                 else
                   (case delayMs c of
                      None \<Rightarrow> (True, w)
                    | Some dl \<Rightarrow>
                       if dl = 0 then (True, w)
                       else
                         (let changedAt =
                                (case statusChangedAt w d of None \<Rightarrow> 0 | Some a \<Rightarrow> a)
                          in if now w - changedAt < dl
                             then (False,
                                   scheduleArmEvaluation (oid t) (dl - (now w - changedAt)) w)
                             else (True, w))))
          | AllOf \<Rightarrow>
             (list_all (\<lambda>i. fired (triggerStatus w i))
                (case triggerIds c of None \<Rightarrow> [] | Some l \<Rightarrow> l), w)
          | AnyOf \<Rightarrow>
             (list_ex (\<lambda>i. fired (triggerStatus w i))
                (case triggerIds c of None \<Rightarrow> [] | Some l \<Rightarrow> l), w)
          | TimerCondition \<Rightarrow> (True, w)))"

text \<open>
  The loop of \<^verbatim>\<open>updateDependentTriggers\<close> over the remaining objects; \<open>allTriggers\<close>
  is the whole list, handed to every evaluation.
\<close>

fun updateDependentLoop ::
  "string \<Rightarrow> MediaObject list \<Rightarrow> MediaObject list \<Rightarrow> World \<Rightarrow> World" where
  "updateDependentLoop changed allTriggers [] w = w"
| "updateDependentLoop changed allTriggers (t # ts) w =
     (if oid t = changed then updateDependentLoop changed allTriggers ts w
      else if getTriggerStatus w (oid t) \<noteq> Idle
      then updateDependentLoop changed allTriggers ts w
      else (let (ok, w1) = evaluateArmCondition t (Some allTriggers) w in
            updateDependentLoop changed allTriggers ts
              (if ok then setTriggerStatus (oid t) Armed w1 else w1)))"

definition updateDependentTriggers :: "string \<Rightarrow> MediaObject list \<Rightarrow> World \<Rightarrow> World" where
  "updateDependentTriggers changed allTriggers w =
     updateDependentLoop changed allTriggers allTriggers w"

text \<open>\<^verbatim>\<open>allTriggers || sessionState.objects\<close>: an array, also an empty one, is truthy.\<close>

definition orSessionObjects :: "MediaObject list option \<Rightarrow> World \<Rightarrow> MediaObject list" where
  "orSessionObjects allTriggers w =
     (case allTriggers of None \<Rightarrow> objects w | Some l \<Rightarrow> l)"

definition processTriggerActivation ::
  "MediaObject \<Rightarrow> MediaObject list option \<Rightarrow> World \<Rightarrow> bool \<times> World" where
  "processTriggerActivation t allTriggers w =
     (if getTriggerStatus w (oid t) \<noteq> Armed then (False, w)
      else (let w1 = setTriggerStatus (oid t) Triggered w;
                w2 = updateDependentTriggers (oid t) (orSessionObjects allTriggers w1) w1
            in (True, persistSessionState w2)))"

definition completeTrigger ::
  "string \<Rightarrow> MediaObject option \<Rightarrow> MediaObject list option \<Rightarrow> World \<Rightarrow> World" where
  "completeTrigger k t allTriggers w =
     (if getTriggerStatus w k \<noteq> Triggered then w
      else (let obj = (case t of None \<Rightarrow> find (\<lambda>x. oid x = k) (objects w) | Some x \<Rightarrow> Some x);
                triggers = orSessionObjects allTriggers w;
                w1 = (case obj of
                        None \<Rightarrow> setTriggerStatus k Completed w
                      | Some x \<Rightarrow>
                          if repeatable x = Some True
                          then (let timeout =
                                      (case resetTimeout x of None \<Rightarrow> 30000 | Some n \<Rightarrow> n)
                                in if timeout > 0
                                   then scheduleStatusChange k Armed timeout w
                                   else setTriggerStatus k Armed w)
                          else setTriggerStatus k Completed w)
            in persistSessionState (updateDependentTriggers k triggers w1)))"

definition clearAllTimers :: "World \<Rightarrow> World" where
  "clearAllTimers w =
     (fold (\<lambda>e. clearTimeout (snd e)) (pendingTimers w) w)\<lparr>pendingTimers := []\<rparr>"

text \<open>
  The stored entry is \<open>None\<close> when the key is missing or does not parse. An entry
  older than 24 hours is removed and ignored.
\<close>

definition restoreSessionState :: "World \<Rightarrow> bool \<times> World" where
  "restoreSessionState w =
     (case storage w of
        None \<Rightarrow> (False, w)
      | Some d \<Rightarrow>
          if now w - snapTimestamp d > 24 * 60 * 60 * 1000
          then (False, w\<lparr>storage := None\<rparr>)
          else (True, w\<lparr>triggerStatus := snapTriggerStatus d,
                        statusChangedAt := snapStatusChangedAt d\<rparr>))"

definition initializeSession :: "MediaObject list \<Rightarrow> World \<Rightarrow> World" where
  "initializeSession triggers w =
     (let w1 = clearAllTimers
                 (w\<lparr>triggerStatus := Map.empty, statusChangedAt := Map.empty,
                    objects := triggers\<rparr>);
          (restored, w2) = restoreSessionState w1
      in if restored then w2
         else fold (\<lambda>t v. (let (ok, v1) = evaluateArmCondition t (Some triggers) v in
                            v1\<lparr>triggerStatus :=
                                 (triggerStatus v1)(oid t \<mapsto> (if ok then Armed else Idle))\<rparr>))
                triggers w2)"

definition clearSessionState :: "World \<Rightarrow> World" where
  "clearSessionState w =
     (clearAllTimers
        (w\<lparr>triggerStatus := Map.empty, statusChangedAt := Map.empty, objects := []\<rparr>))
      \<lparr>storage := None\<rparr>"

section \<open>Activation coordinator (services/triggers.ts)\<close>

definition onTriggerActivation :: "nat \<Rightarrow> World \<Rightarrow> World" where
  "onTriggerActivation l w = w\<lparr>listeners := insert l (listeners w)\<rparr>"

text \<open>\<^verbatim>\<open>state.listeners.forEach((cb) => cb(object))\<close>\<close>

definition callListeners :: "MediaObject \<Rightarrow> World \<Rightarrow> World" where
  "callListeners obj w =
     w\<lparr>received := (\<lambda>l. if l \<in> listeners w then received w l @ [obj] else received w l)\<rparr>"

definition notifyActivation ::
  "MediaObject \<Rightarrow> MediaObject list option \<Rightarrow> World \<Rightarrow> World" where
  "notifyActivation obj allObjects w =
     (if oid obj \<in> activeObjects w then w
      else
       (let (proceed, w1) =
              (case armCondition obj of
                 None \<Rightarrow> (True, w)
               | Some c \<Rightarrow>
                   if getTriggerStatus w (oid obj) \<noteq> Armed then (False, w)
                   else processTriggerActivation obj allObjects w)
        in if \<not> proceed then w1
           else (let w2 = callListeners obj
                            (w1\<lparr>activeObjects := insert (oid obj) (activeObjects w1)\<rparr>);
                     timeout = (case resetTimeout obj of None \<Rightarrow> 30000 | Some n \<Rightarrow> n)
                 in if timeout > 0
                    then snd (setTimeout (AutoDeactivateCb (oid obj)) timeout w2)
                    else w2)))"

text \<open>
  The great-circle distance of \<^verbatim>\<open>calculateDistance\<close> is floating-point trigonometry;
  \<^verbatim>\<open>checkGPSTrigger\<close> takes it as its first parameter.
\<close>

definition checkGPSTrigger ::
  "(Location \<Rightarrow> Location \<Rightarrow> real) \<Rightarrow> MediaObject list \<Rightarrow> Location \<Rightarrow> World \<Rightarrow> World" where
  "checkGPSTrigger calculateDistance objs userLocation w =
     fold (\<lambda>obj v.
             if \<not> active obj then v
             else if ttype (trigger obj) \<noteq> Gps then v
             else if oid obj \<in> dismissedObjects v then v
             else if calculateDistance userLocation (location obj)
                       \<le> of_int (numOr (radius (params (trigger obj))) 10)
             then notifyActivation obj (Some objs) v
             else v)
          objs w"

definition dismissTrigger :: "string \<Rightarrow> World \<Rightarrow> World" where
  "dismissTrigger k w =
     w\<lparr>dismissedObjects := insert k (dismissedObjects w),
       activeObjects := activeObjects w - {k}\<rparr>"

definition manuallyActivate :: "MediaObject \<Rightarrow> World \<Rightarrow> World" where
  "manuallyActivate obj w =
     (let w1 = w\<lparr>activeObjects := activeObjects w - {oid obj}\<rparr>;
          w2 = callListeners obj w1
      in w2\<lparr>activeObjects := insert (oid obj) (activeObjects w2)\<rparr>)"

definition checkQRTrigger :: "MediaObject list \<Rightarrow> string \<Rightarrow> World \<Rightarrow> World" where
  "checkQRTrigger objs scannedCode w =
     fold (\<lambda>obj v.
             if \<not> active obj then v
             else if ttype (trigger obj) \<noteq> Qr then v
             else if code (params (trigger obj)) = Some scannedCode \<or> oid obj = scannedCode
             then notifyActivation obj None v
             else v)
          objs w"

definition checkShakeTrigger :: "MediaObject list \<Rightarrow> int \<Rightarrow> World \<Rightarrow> World" where
  "checkShakeTrigger objs acceleration w =
     fold (\<lambda>obj v.
             if \<not> active obj then v
             else if ttype (trigger obj) \<noteq> Shake then v
             else if acceleration \<ge> numOr (threshold (params (trigger obj))) 15
             then notifyActivation obj None v
             else v)
          objs w"

text \<open>The remainder operator \<^verbatim>\<open>%\<close>: the result has the sign of the dividend.\<close>

definition jsRem :: "int \<Rightarrow> int \<Rightarrow> int" where
  "jsRem a b = sgn a * (\<bar>a\<bar> mod \<bar>b\<bar>)"

definition normalizeAngle :: "int \<Rightarrow> int" where
  "normalizeAngle angle = jsRem (jsRem angle 360 + 360) 360"

definition compassFires :: "MediaObject \<Rightarrow> int \<Rightarrow> bool" where
  "compassFires obj hdg =
     (let targetHeading = numOr (heading (params (trigger obj))) 0;
          tol = numOr (tolerance (params (trigger obj))) 30;
          diff = \<bar>normalizeAngle (hdg - targetHeading)\<bar>
      in diff \<le> tol)"

definition checkCompassTrigger :: "MediaObject list \<Rightarrow> int \<Rightarrow> World \<Rightarrow> World" where
  "checkCompassTrigger objs hdg w =
     fold (\<lambda>obj v.
             if \<not> active obj then v
             else if ttype (trigger obj) \<noteq> Compass then v
             else if compassFires obj hdg then notifyActivation obj None v
             else v)
          objs w"

definition checkTouchTrigger :: "MediaObject list \<Rightarrow> World \<Rightarrow> World" where
  "checkTouchTrigger objs w =
     fold (\<lambda>obj v.
             if \<not> active obj then v
             else if ttype (trigger obj) \<noteq> Touch then v
             else notifyActivation obj None v)
          objs w"

definition startTimerTriggers :: "MediaObject list \<Rightarrow> World \<Rightarrow> World" where
  "startTimerTriggers objs w =
     fold (\<lambda>obj v.
             if \<not> active obj then v
             else if ttype (trigger obj) \<noteq> Timer then v
             else if map_of (timerTimeouts v) (oid obj) \<noteq> None then v
             else (let (timeoutId, v1) =
                         setTimeout (TimerTriggerCb obj)
                           (numOr (delay (params (trigger obj))) 5000) v
                   in v1\<lparr>timerTimeouts := AList.update (oid obj) timeoutId (timerTimeouts v1)\<rparr>))
          objs w"

definition clearTimerTriggers :: "World \<Rightarrow> World" where
  "clearTimerTriggers w =
     (fold (\<lambda>e. clearTimeout (snd e)) (timerTimeouts w) w)\<lparr>timerTimeouts := []\<rparr>"

definition resetActivation :: "string \<Rightarrow> World \<Rightarrow> World" where
  "resetActivation k w = w\<lparr>activeObjects := activeObjects w - {k}\<rparr>"

definition resetAllActivations :: "World \<Rightarrow> World" where
  "resetAllActivations w = w\<lparr>activeObjects := {}, dismissedObjects := {}\<rparr>"

definition isActivated :: "string \<Rightarrow> World \<Rightarrow> bool" where
  "isActivated k w = (k \<in> activeObjects w)"

section \<open>Timer callbacks and the event loop\<close>

text \<open>The bodies of the four closures handed to \<^verbatim>\<open>setTimeout\<close>.\<close>

fun runCallback :: "Callback \<Rightarrow> World \<Rightarrow> World" where
  "runCallback (StatusChangeCb k newStatus) w =
     (let w1 = setTriggerStatus k newStatus w
      in persistSessionState (w1\<lparr>pendingTimers := AList.delete k (pendingTimers w1)\<rparr>))"
| "runCallback (ArmEvaluationCb k) w =
     (let w1 = (case find (\<lambda>x. oid x = k) (objects w) of
                  None \<Rightarrow> w
                | Some t \<Rightarrow>
                    if getTriggerStatus w k = Idle
                    then (let (ok, v) = evaluateArmCondition t None w in
                          if ok then persistSessionState (setTriggerStatus k Armed v) else v)
                    else w)
      in w1\<lparr>pendingTimers := AList.delete (''arm-'' @ k) (pendingTimers w1)\<rparr>)"
| "runCallback (AutoDeactivateCb k) w = w\<lparr>activeObjects := activeObjects w - {k}\<rparr>"
| "runCallback (TimerTriggerCb obj) w =
     (let w1 = notifyActivation obj None w
      in w1\<lparr>timerTimeouts := AList.delete (oid obj) (timerTimeouts w1)\<rparr>)"

text \<open>
  The host delivers a pending timeout: the entry leaves the table, the clock stands at
  its due time or later, and the callback runs. An unknown identifier does nothing.
\<close>

definition fireTimer :: "nat \<Rightarrow> World \<Rightarrow> World" where
  "fireTimer t w =
     (case find (\<lambda>e. fst e = t) (timers w) of
        None \<Rightarrow> w
      | Some (_, due, cb) \<Rightarrow>
          runCallback cb
            (w\<lparr>timers := filter (\<lambda>e. fst e \<noteq> t) (timers w), now := max (now w) due\<rparr>))"

section \<open>Initial state and event sequences\<close>

text \<open>
  The module-level initial values of \<^verbatim>\<open>sessionState\<close> and \<^verbatim>\<open>state\<close>, with the host
  at time 0, an empty timer table and an empty, writable store.
\<close>

definition initialWorld :: World where
  "initialWorld =
     \<lparr>now = 0, timers = [], nextTimerId = 1, storage = None, storageWritable = True,
      triggerStatus = Map.empty, statusChangedAt = Map.empty, pendingTimers = [],
      objects = [], statusLog = [], activeObjects = {}, dismissedObjects = {},
      listeners = {}, received = (\<lambda>l. []), timerTimeouts = []\<rparr>"

text \<open>An active object of a given kind with an empty parameter bag and no chain fields.\<close>

definition plainObject :: "string \<Rightarrow> TriggerType \<Rightarrow> MediaObject" where
  "plainObject k ty =
     \<lparr>oid = k, location = \<lparr>lat = 0, lng = 0\<rparr>,
      trigger = \<lparr>ttype = ty,
                 params = \<lparr>radius = None, code = None, threshold = None, heading = None,
                            tolerance = None, delay = None\<rparr>\<rparr>,
      active = True, armCondition = None, repeatable = None, resetTimeout = None\<rparr>"

text \<open>The condition the editors build: \<^verbatim>\<open>{ type: 'afterTrigger', triggerId }\<close>.\<close>

definition afterTrigger :: "string \<Rightarrow> ChainCondition" where
  "afterTrigger d = \<lparr>ctype = AfterTrigger, triggerId = Some d, triggerIds = None, delayMs = None\<rparr>"

text \<open>
  What can happen to the chain state during a session: an activation request, a
  completion, a coordinator notification, a dependent-arming sweep, the host delivering
  a timeout, and time passing.
\<close>

datatype Event =
  Activate MediaObject "MediaObject list option"
| Complete string "MediaObject option" "MediaObject list option"
| Notify MediaObject "MediaObject list option"
| Sweep string "MediaObject list"
| Fire nat
| Advance nat

fun step :: "Event \<Rightarrow> World \<Rightarrow> World" where
  "step (Activate t allTriggers) w = snd (processTriggerActivation t allTriggers w)"
| "step (Complete k t allTriggers) w = completeTrigger k t allTriggers w"
| "step (Notify obj allObjects) w = notifyActivation obj allObjects w"
| "step (Sweep k allTriggers) w = updateDependentTriggers k allTriggers w"
| "step (Fire t) w = fireTimer t w"
| "step (Advance n) w = w\<lparr>now := now w + int n\<rparr>"

definition run :: "Event list \<Rightarrow> World \<Rightarrow> World" where
  "run evs w = fold step evs w"

section \<open>Invariants of the timer table and of unsatisfiable dependencies\<close>

text \<open>
  The host hands out timer identifiers in increasing order: every pending timeout has
  an identifier below the next one.
\<close>

definition timersFresh :: "World \<Rightarrow> bool" where
  "timersFresh w = list_all (\<lambda>e. fst e < nextTimerId w) (timers w)"

text \<open>
  Bookkeeping for the timer table. \<open>timersExtend Q w w'\<close>: the table of \<open>w'\<close> holds
  only entries of \<open>w\<close> and new entries, whose identifiers start at the next identifier
  of \<open>w\<close> and whose callbacks satisfy \<open>Q\<close>. \<open>benignCb\<close> are the callbacks that never
  set a status by themselves.
\<close>

definition timersExtend :: "(Callback \<Rightarrow> bool) \<Rightarrow> World \<Rightarrow> World \<Rightarrow> bool" where
  "timersExtend Q w w' =
     (nextTimerId w \<le> nextTimerId w' \<and>
      list_all (\<lambda>e. e \<in> set (timers w) \<or>
                     (nextTimerId w \<le> fst e \<and> fst e < nextTimerId w' \<and> Q (snd (snd e))))
        (timers w'))"

text \<open>
  The last steps of \<open>notifyActivation\<close>, named for the proofs: the object joins the
  active set, the observers are called and the automatic removal is scheduled.
\<close>

definition activationTail :: "MediaObject \<Rightarrow> World \<Rightarrow> World" where
  "activationTail obj v =
     (let w2 = callListeners obj (v\<lparr>activeObjects := insert (oid obj) (activeObjects v)\<rparr>);
          timeout = (case resetTimeout obj of None \<Rightarrow> 30000 | Some n \<Rightarrow> n)
      in if timeout > 0
         then snd (setTimeout (AutoDeactivateCb (oid obj)) timeout w2)
         else w2)"

fun benignCb :: "Callback \<Rightarrow> bool" where
  "benignCb (ArmEvaluationCb k) = True"
| "benignCb (AutoDeactivateCb k) = True"
| "benignCb (StatusChangeCb k s) = False"
| "benignCb (TimerTriggerCb obj) = False"

text \<open>
  An unsatisfiable dependency: the object \<open>k\<close> waits, by an \<^verbatim>\<open>afterTrigger\<close> condition,
  for the id \<open>d\<close>, which no object carries. \<open>okObject k d\<close> holds of every object that may
  be handed to the session: its id is not \<open>d\<close>, and if its id is \<open>k\<close> it carries that
  condition. \<open>okCallback\<close> and \<open>okEvent\<close> lift this to pending callbacks and to events;
  \<open>dependencyInv\<close> is the invariant of such a session.
\<close>

definition waitsFor :: "string \<Rightarrow> MediaObject \<Rightarrow> bool" where
  "waitsFor d x =
     (case armCondition x of
        None \<Rightarrow> False
      | Some c \<Rightarrow> ctype c = AfterTrigger \<and> triggerId c = Some d)"

definition okObject :: "string \<Rightarrow> string \<Rightarrow> MediaObject \<Rightarrow> bool" where
  "okObject k d x = (oid x \<noteq> d \<and> (oid x = k \<longrightarrow> waitsFor d x))"

fun okCallback :: "string \<Rightarrow> string \<Rightarrow> Callback \<Rightarrow> bool" where
  "okCallback k d (StatusChangeCb j s) = (j \<noteq> k \<and> j \<noteq> d)"
| "okCallback k d (ArmEvaluationCb j) = True"
| "okCallback k d (AutoDeactivateCb j) = True"
| "okCallback k d (TimerTriggerCb x) = okObject k d x"

definition okList :: "string \<Rightarrow> string \<Rightarrow> MediaObject list option \<Rightarrow> bool" where
  "okList k d l = (case l of None \<Rightarrow> True | Some xs \<Rightarrow> list_all (okObject k d) xs)"

fun okEvent :: "string \<Rightarrow> string \<Rightarrow> Event \<Rightarrow> bool" where
  "okEvent k d (Activate t l) = (okObject k d t \<and> okList k d l)"
| "okEvent k d (Complete j t l) =
     ((case t of None \<Rightarrow> True | Some x \<Rightarrow> okObject k d x) \<and> okList k d l)"
| "okEvent k d (Notify x l) = (okObject k d x \<and> okList k d l)"
| "okEvent k d (Sweep j xs) = list_all (okObject k d) xs"
| "okEvent k d (Fire n) = True"
| "okEvent k d (Advance n) = True"

definition dependencyInv :: "string \<Rightarrow> string \<Rightarrow> World \<Rightarrow> bool" where
  "dependencyInv k d w =
     (getTriggerStatus w k = Idle \<and> triggerStatus w d = None \<and>
      list_all (okObject k d) (objects w) \<and>
      list_all (\<lambda>e. okCallback k d (snd (snd e))) (timers w))"

section \<open>Sample objects and sessions\<close>

text \<open>
  A chain of three objects: \<open>objB\<close> waits for \<open>objA\<close> and \<open>objC\<close> waits for \<open>objB\<close>.
  \<open>chainWorld\<close> is the cold start of a session on them with one observer subscribed:
  \<open>objA\<close> is armed, the other two are idle.
\<close>

definition objA :: MediaObject where
  "objA = plainObject ''A'' Touch"

definition objB :: MediaObject where
  "objB = (plainObject ''B'' Touch)\<lparr>armCondition := Some (afterTrigger ''A'')\<rparr>"

definition objC :: MediaObject where
  "objC = (plainObject ''C'' Touch)\<lparr>armCondition := Some (afterTrigger ''B'')\<rparr>"

definition listeningWorld :: World where
  "listeningWorld = onTriggerActivation 0 initialWorld"

definition chainWorld :: World where
  "chainWorld = initializeSession [objA, objB, objC] listeningWorld"

text \<open>
  A shake object with the default threshold, and the world in which it has been shown
  and then closed by the user.
\<close>

definition shakeObject :: MediaObject where
  "shakeObject = plainObject ''S'' Shake"

definition dismissedWorld :: World where
  "dismissedWorld = dismissTrigger ''S'' (checkShakeTrigger [shakeObject] 20 listeningWorld)"

text \<open>A timer object whose \<^verbatim>\<open>delay\<close> parameter is 0.\<close>

definition zeroDelayTimer :: MediaObject where
  "zeroDelayTimer =
     (plainObject ''T'' Timer)
       \<lparr>trigger := \<lparr>ttype = Timer,
                     params = \<lparr>radius = None, code = None, threshold = None,
                                heading = None, tolerance = None, delay = Some 0\<rparr>\<rparr>\<rparr>"

text \<open>A repeatable object that resets 1000 ms after completion, armed and shown once.\<close>

definition repeatableObject :: MediaObject where
  "repeatableObject =
     (plainObject ''R'' Touch)\<lparr>armCondition := Some \<lparr>ctype = TimerCondition, triggerId = None,
                                                    triggerIds = None, delayMs = None\<rparr>,
                               repeatable := Some True, resetTimeout := Some 1000\<rparr>"

definition repeatableWorld :: World where
  "repeatableWorld =
     notifyActivation repeatableObject None (initializeSession [repeatableObject] listeningWorld)"

text \<open>
  An object waiting for the id \<open>ghost\<close>, which no object carries; the cold start of a
  session on it and \<open>objA\<close>; and a run of that session: \<open>objA\<close> is activated,
  completed and shown, its automatic removal is delivered, a sweep runs, the waiting
  object is tried, and time passes.
\<close>

definition ghostObject :: MediaObject where
  "ghostObject = (plainObject ''G'' Touch)\<lparr>armCondition := Some (afterTrigger ''ghost'')\<rparr>"

definition ghostWorld :: World where
  "ghostWorld = initializeSession [objA, ghostObject] listeningWorld"

definition ghostEvents :: "Event list" where
  "ghostEvents =
     [Activate objA None, Complete ''A'' (Some objA) None, Notify objA None, Fire 1,
      Sweep ''A'' [objA, ghostObject], Activate ghostObject None,
      Notify ghostObject (Some [ghostObject, objA]), Advance 5]"

text \<open>The compass object the editors create by default: heading 0, tolerance 30.\<close>

definition northObject :: MediaObject where
  "northObject =
     (plainObject ''N'' Compass)
       \<lparr>trigger := \<lparr>ttype = Compass,
                     params = \<lparr>radius = None, code = None, threshold = None,
                                heading = Some 0, tolerance = Some 30, delay = None\<rparr>\<rparr>\<rparr>"

text \<open>
  The circular angular difference in the words of the specification: the shorter of the
  two arcs between two headings, in degrees.
\<close>

definition circularDifference :: "int \<Rightarrow> int \<Rightarrow> int" where
  "circularDifference a b = min ((a - b) mod 360) ((b - a) mod 360)"

section \<open>Basic facts\<close>

lemmas fixture_defs =
  objA_def objB_def objC_def listeningWorld_def chainWorld_def shakeObject_def
  dismissedWorld_def northObject_def zeroDelayTimer_def repeatableObject_def
  plainObject_def afterTrigger_def initialWorld_def onTriggerActivation_def

lemma chainWorld_status:
  "triggerStatus chainWorld = [''A'' \<mapsto> Armed, ''B'' \<mapsto> Idle, ''C'' \<mapsto> Idle]"
  by (simp add: fixture_defs initializeSession_def clearAllTimers_def restoreSessionState_def
        evaluateArmCondition_def fired_def)

lemma fold_clearTimeout_status:
  "triggerStatus (fold (\<lambda>e. clearTimeout (snd e)) l w) = triggerStatus w"
  by (induction l arbitrary: w) (simp_all add: clearTimeout_def)

lemma not_fired_idle: "getTriggerStatus w k = Idle \<Longrightarrow> \<not> fired (triggerStatus w k)"
  by (auto simp add: getTriggerStatus_def fired_def split: option.splits)

subsection \<open>The compass evaluator\<close>

lemma jsRem_nonneg: "0 \<le> a \<Longrightarrow> 0 < b \<Longrightarrow> jsRem a b = a mod b"
  by (cases "a = 0") (simp_all add: jsRem_def)

lemma jsRem_neg: "a < 0 \<Longrightarrow> 0 < b \<Longrightarrow> jsRem a b = - ((- a) mod b)"
  by (simp add: jsRem_def)

lemma normalizeAngle_mod: "normalizeAngle a = a mod 360"
proof (cases "a \<ge> 0")
  case True
  then have "jsRem a 360 = a mod 360" by (simp add: jsRem_nonneg)
  moreover have "jsRem (a mod 360 + 360) 360 = (a mod 360 + 360) mod 360"
    by (rule jsRem_nonneg) simp_all
  ultimately show ?thesis by (simp add: normalizeAngle_def)
next
  case False
  define x where "x = (- a) mod 360"
  have x: "0 \<le> x" "x < 360" by (simp_all add: x_def)
  have j: "jsRem a 360 = - x" using False by (simp add: jsRem_neg x_def)
  have "(- x) mod 360 = (- (- a)) mod 360" unfolding x_def by (rule mod_minus_cong) simp
  then have am: "a mod 360 = (- x) mod 360" by simp
  have "jsRem (- x + 360) 360 = (- x + 360) mod 360" using x by (intro jsRem_nonneg) simp_all
  then show ?thesis using j am by (simp add: normalizeAngle_def)
qed

text \<open>
  What the evaluator computes: the offset of the heading from the target, taken
  clockwise only. A heading short of the target by less than the tolerance is at an
  offset of more than 180 degrees.
\<close>

lemma compassFires_iff:
  "compassFires obj h \<longleftrightarrow>
     (h - numOr (heading (params (trigger obj))) 0) mod 360
       \<le> numOr (tolerance (params (trigger obj))) 30"
  by (simp add: compassFires_def normalizeAngle_mod Let_def)

text \<open>
  C5. The compass evaluator should fire exactly when the circular difference between
  heading and target is within the tolerance. At heading 350 the default compass
  object (target 0, tolerance 30) is 10 degrees away and does not fire: the evaluator
  leaves the world unchanged.
\<close>

theorem checkCompassTrigger_misses_counterclockwise:
  "circularDifference 350 0 = 10 \<and>
   compassFires northObject 350 = False \<and>
   checkCompassTrigger [northObject] 350 listeningWorld = listeningWorld \<and>
   compassFires northObject 10 = True"
  by (simp add: circularDifference_def checkCompassTrigger_def compassFires_def
        normalizeAngle_def jsRem_def numOr_def northObject_def plainObject_def)

subsection \<open>Dismissal\<close>

text \<open>The GPS evaluator skips a dismissed object whatever the distance.\<close>

lemma checkGPSTrigger_dismissed:
  "oid obj \<in> dismissedObjects w \<Longrightarrow> checkGPSTrigger d [obj] loc w = w"
  by (simp add: checkGPSTrigger_def)

text \<open>
  C4. After \<open>dismissTrigger\<close> the automatic evaluator of the object's kind should not
  notify the observers again. The shake evaluator does: the observer has received the
  object once before the dismissal and receives it a second time on the next shake.
\<close>

theorem checkShakeTrigger_ignores_dismissal:
  "received (checkShakeTrigger [shakeObject] 20 listeningWorld) 0 = [shakeObject] \<and>
   ''S'' \<in> dismissedObjects dismissedWorld \<and>
   received (checkShakeTrigger [shakeObject] 20 dismissedWorld) 0 = [shakeObject, shakeObject]"
  by (simp add: checkShakeTrigger_def notifyActivation_def dismissTrigger_def
        callListeners_def setTimeout_def numOr_def fixture_defs Let_def)

subsection \<open>Manual activation\<close>

text \<open>
  C10. \<open>manuallyActivate\<close> changes only the active set, which gains the object's id,
  and calls every observer exactly once with the object. The dismissed set, the chain
  statuses, the pending timers and the host's timer table are unchanged (no automatic
  removal is scheduled), so a dismissed object stays dismissed.
\<close>

theorem manuallyActivate_frame:
  "manuallyActivate obj w =
     w\<lparr>activeObjects := insert (oid obj) (activeObjects w),
       received := (\<lambda>l. if l \<in> listeners w then received w l @ [obj] else received w l)\<rparr>
   \<and> (\<forall>l\<in>listeners w. received (manuallyActivate obj w) l = received w l @ [obj])
   \<and> oid obj \<in> activeObjects (manuallyActivate obj w)
   \<and> dismissedObjects (manuallyActivate obj w) = dismissedObjects w
   \<and> triggerStatus (manuallyActivate obj w) = triggerStatus w
   \<and> statusChangedAt (manuallyActivate obj w) = statusChangedAt w
   \<and> pendingTimers (manuallyActivate obj w) = pendingTimers w
   \<and> timerTimeouts (manuallyActivate obj w) = timerTimeouts w
   \<and> timers (manuallyActivate obj w) = timers w"
  by (simp add: manuallyActivate_def callListeners_def Let_def cong: if_cong)

theorem manuallyActivate_frame_witness:
  "0 \<in> listeners dismissedWorld \<and>
   ''S'' \<in> dismissedObjects dismissedWorld \<and>
   ''S'' \<notin> activeObjects dismissedWorld \<and>
   received dismissedWorld 0 = [shakeObject] \<and>
   received (manuallyActivate shakeObject dismissedWorld) 0 = [shakeObject, shakeObject] \<and>
   ''S'' \<in> activeObjects (manuallyActivate shakeObject dismissedWorld) \<and>
   ''S'' \<in> dismissedObjects (manuallyActivate shakeObject dismissedWorld) \<and>
   timers (manuallyActivate shakeObject dismissedWorld) = [(1, 30000, AutoDeactivateCb ''S'')]"
  using manuallyActivate_frame [of shakeObject dismissedWorld]
  by (simp add: checkShakeTrigger_def notifyActivation_def dismissTrigger_def
        callListeners_def setTimeout_def numOr_def fixture_defs Let_def)

subsection \<open>Default status\<close>

text \<open>
  C9. \<open>getTriggerStatus\<close> answers \<open>Idle\<close> for every id without a recorded status: in
  any world where the id has no entry, before any initialisation, and after
  \<open>clearSessionState\<close>. An object that carries an arm condition and whose id has no
  entry is therefore not armed: \<open>processTriggerActivation\<close> refuses it and
  \<open>notifyActivation\<close> does nothing.
\<close>

theorem getTriggerStatus_defaults_to_idle:
  "(triggerStatus w k = None \<longrightarrow> getTriggerStatus w k = Idle)
   \<and> getTriggerStatus initialWorld k = Idle
   \<and> getTriggerStatus (clearSessionState w) k = Idle
   \<and> (armCondition obj \<noteq> None \<and> triggerStatus w (oid obj) = None \<longrightarrow>
        processTriggerActivation obj allObjects w = (False, w)
        \<and> notifyActivation obj allObjects w = w)"
  by (auto simp add: getTriggerStatus_def initialWorld_def clearSessionState_def
        clearAllTimers_def fold_clearTimeout_status processTriggerActivation_def
        notifyActivation_def)

theorem getTriggerStatus_defaults_to_idle_witness:
  "triggerStatus listeningWorld ''B'' = None \<and>
   armCondition objB \<noteq> None \<and>
   getTriggerStatus listeningWorld ''B'' = Idle \<and>
   getTriggerStatus (clearSessionState listeningWorld) ''B'' = Idle \<and>
   processTriggerActivation objB None listeningWorld = (False, listeningWorld) \<and>
   notifyActivation objB None listeningWorld = listeningWorld"
  using getTriggerStatus_defaults_to_idle [of listeningWorld "''B''" objB None]
  by (simp add: fixture_defs)

section \<open>The chain state machine\<close>

lemma getTriggerStatus_Idle_iff:
  "getTriggerStatus w k = Idle \<longleftrightarrow> triggerStatus w k = None \<or> triggerStatus w k = Some Idle"
  by (simp add: getTriggerStatus_def split: option.splits)

lemma getTriggerStatus_eq_iff:
  "s \<noteq> Idle \<Longrightarrow> getTriggerStatus w k = s \<longleftrightarrow> triggerStatus w k = Some s"
  by (auto simp add: getTriggerStatus_def split: option.splits)

lemma evaluateArmCondition_frame:
  "triggerStatus (snd (evaluateArmCondition t a w)) = triggerStatus w"
  "statusChangedAt (snd (evaluateArmCondition t a w)) = statusChangedAt w"
  "now (snd (evaluateArmCondition t a w)) = now w"
  "storage (snd (evaluateArmCondition t a w)) = storage w"
  "storageWritable (snd (evaluateArmCondition t a w)) = storageWritable w"
  "objects (snd (evaluateArmCondition t a w)) = objects w"
  "statusLog (snd (evaluateArmCondition t a w)) = statusLog w"
  "activeObjects (snd (evaluateArmCondition t a w)) = activeObjects w"
  "dismissedObjects (snd (evaluateArmCondition t a w)) = dismissedObjects w"
  "listeners (snd (evaluateArmCondition t a w)) = listeners w"
  "received (snd (evaluateArmCondition t a w)) = received w"
  "timerTimeouts (snd (evaluateArmCondition t a w)) = timerTimeouts w"
  by (simp_all add: evaluateArmCondition_def scheduleArmEvaluation_def setTimeout_def Let_def
        split: option.splits ConditionType.splits)

lemma evaluateArmCondition_verdict_cong:
  assumes n: "now w' = now w"
    and f: "\<And>k. fired (triggerStatus w' k) = fired (triggerStatus w k)"
    and c: "\<And>k. fired (triggerStatus w k) \<Longrightarrow> statusChangedAt w' k = statusChangedAt w k"
  shows "fst (evaluateArmCondition t a' w') = fst (evaluateArmCondition t a w)"
proof (cases "armCondition t")
  case None
  then show ?thesis by (simp add: evaluateArmCondition_def)
next
  case (Some cnd)
  show ?thesis
  proof (cases "ctype cnd")
    case AfterTrigger
    show ?thesis
    proof (cases "triggerId cnd")
      case None
      with Some AfterTrigger show ?thesis by (simp add: evaluateArmCondition_def)
    next
      case (Some d)
      show ?thesis
      proof (cases "fired (triggerStatus w d)")
        case True
        with c have "statusChangedAt w' d = statusChangedAt w d" by simp
        with True f[of d] n Some \<open>armCondition t = Some cnd\<close> AfterTrigger show ?thesis
          by (simp add: evaluateArmCondition_def Let_def split: option.splits)
      next
        case False
        with f[of d] Some \<open>armCondition t = Some cnd\<close> AfterTrigger show ?thesis
          by (simp add: evaluateArmCondition_def)
      qed
    qed
  qed (use Some f in \<open>simp_all add: evaluateArmCondition_def\<close>)
qed

lemma setTriggerStatus_fields:
  "triggerStatus (setTriggerStatus k s w) = (triggerStatus w)(k \<mapsto> s)"
  "now (setTriggerStatus k s w) = now w"
  "storage (setTriggerStatus k s w) = storage w"
  "storageWritable (setTriggerStatus k s w) = storageWritable w"
  "objects (setTriggerStatus k s w) = objects w"
  "timers (setTriggerStatus k s w) = timers w"
  "nextTimerId (setTriggerStatus k s w) = nextTimerId w"
  "pendingTimers (setTriggerStatus k s w) = pendingTimers w"
  "activeObjects (setTriggerStatus k s w) = activeObjects w"
  "dismissedObjects (setTriggerStatus k s w) = dismissedObjects w"
  "listeners (setTriggerStatus k s w) = listeners w"
  "received (setTriggerStatus k s w) = received w"
  "timerTimeouts (setTriggerStatus k s w) = timerTimeouts w"
  by (auto simp add: setTriggerStatus_def notifyStatusChange_def Let_def)

lemma setTriggerStatus_changedAt:
  "statusChangedAt (setTriggerStatus k s w) x =
     (if x = k \<and> triggerStatus w k \<noteq> Some s then Some (now w) else statusChangedAt w x)"
  by (simp add: setTriggerStatus_def notifyStatusChange_def Let_def)



lemma updateDependentLoop_status:
  assumes "now w = now w0"
    and "\<And>k. triggerStatus w k = triggerStatus w0 k \<or>
              (getTriggerStatus w0 k = Idle \<and> triggerStatus w k = Some Armed)"
    and "\<And>k. fired (triggerStatus w0 k) \<Longrightarrow> statusChangedAt w k = statusChangedAt w0 k"
  shows "triggerStatus (updateDependentLoop c al ts w) x =
           (if x \<noteq> c \<and> getTriggerStatus w x = Idle \<and>
               (\<exists>t\<in>set ts. oid t = x \<and> fst (evaluateArmCondition t a w0))
            then Some Armed else triggerStatus w x)"
  using assms
proof (induction ts arbitrary: w)
  case Nil
  show ?case by simp
next
  case (Cons t ts)
  have fr: "fired (triggerStatus w k) = fired (triggerStatus w0 k)" for k
    using Cons.prems(2)[of k] by (auto simp add: fired_def getTriggerStatus_def split: option.splits)
  have verdict: "fst (evaluateArmCondition t (Some al) w) = fst (evaluateArmCondition t a w0)"
    by (rule evaluateArmCondition_verdict_cong) (use Cons.prems fr in auto)
  show ?case
  proof (cases "oid t = c \<or> getTriggerStatus w (oid t) \<noteq> Idle")
    case True
    then show ?thesis using Cons.IH[OF Cons.prems] by auto
  next
    case False
    obtain ok w1 where ev: "evaluateArmCondition t (Some al) w = (ok, w1)" by force
    have w1: "triggerStatus w1 = triggerStatus w" "statusChangedAt w1 = statusChangedAt w"
      "now w1 = now w"
      using evaluateArmCondition_frame(1-3)[of t "Some al" w] ev by simp_all
    have okv: "ok = fst (evaluateArmCondition t a w0)" using verdict ev by simp
    define w2 where "w2 = (if ok then setTriggerStatus (oid t) Armed w1 else w1)"
    have step: "updateDependentLoop c al (t # ts) w = updateDependentLoop c al ts w2"
      using False ev by (simp add: w2_def)
    have idle0: "getTriggerStatus w0 (oid t) = Idle"
      using False Cons.prems(2)[of "oid t"] by (auto simp add: getTriggerStatus_def)
    have p1: "now w2 = now w0" using Cons.prems(1) w1 by (simp add: w2_def setTriggerStatus_fields)
    have p2: "triggerStatus w2 k = triggerStatus w0 k \<or>
              (getTriggerStatus w0 k = Idle \<and> triggerStatus w2 k = Some Armed)" for k
      using Cons.prems(2)[of k] w1 idle0 by (auto simp add: w2_def setTriggerStatus_fields)
    have p3: "fired (triggerStatus w0 k) \<Longrightarrow> statusChangedAt w2 k = statusChangedAt w0 k" for k
      using Cons.prems(3)[of k] w1 not_fired_idle[OF idle0]
      by (auto simp add: w2_def setTriggerStatus_changedAt)
    have st2: "triggerStatus w2 = (if ok then (triggerStatus w)(oid t \<mapsto> Armed) else triggerStatus w)"
      using w1 by (simp add: w2_def setTriggerStatus_fields)
    have ih: "triggerStatus (updateDependentLoop c al ts w2) x =
           (if x \<noteq> c \<and> getTriggerStatus w2 x = Idle \<and>
               (\<exists>t\<in>set ts. oid t = x \<and> fst (evaluateArmCondition t a w0))
            then Some Armed else triggerStatus w2 x)"
      by (rule Cons.IH[OF p1 p2 p3])
    show ?thesis
      unfolding step ih
      using False okv st2 by (auto simp add: getTriggerStatus_def)
  qed
qed


lemma updateDependentLoop_Cons:
  "updateDependentLoop c al (t # ts) w =
     (if oid t = c \<or> getTriggerStatus w (oid t) \<noteq> Idle then updateDependentLoop c al ts w
      else updateDependentLoop c al ts
             (if fst (evaluateArmCondition t (Some al) w)
              then setTriggerStatus (oid t) Armed (snd (evaluateArmCondition t (Some al) w))
              else snd (evaluateArmCondition t (Some al) w)))"
  by (simp add: case_prod_beta)

lemma updateDependentLoop_frame:
  "now (updateDependentLoop c al ts w) = now w"
  "storage (updateDependentLoop c al ts w) = storage w"
  "storageWritable (updateDependentLoop c al ts w) = storageWritable w"
  "objects (updateDependentLoop c al ts w) = objects w"
  "activeObjects (updateDependentLoop c al ts w) = activeObjects w"
  "dismissedObjects (updateDependentLoop c al ts w) = dismissedObjects w"
  "listeners (updateDependentLoop c al ts w) = listeners w"
  "received (updateDependentLoop c al ts w) = received w"
  "timerTimeouts (updateDependentLoop c al ts w) = timerTimeouts w"
  by (induction ts arbitrary: w)
     (simp_all add: updateDependentLoop_Cons evaluateArmCondition_frame setTriggerStatus_fields
        del: updateDependentLoop.simps(2))

lemma updateDependentTriggers_status:
  "triggerStatus (updateDependentTriggers c ts w) x =
     (if x \<noteq> c \<and> getTriggerStatus w x = Idle \<and>
         (\<exists>t\<in>set ts. oid t = x \<and> fst (evaluateArmCondition t a w))
      then Some Armed else triggerStatus w x)"
  unfolding updateDependentTriggers_def
  by (rule updateDependentLoop_status) simp_all

lemma persistSessionState_fields:
  "triggerStatus (persistSessionState w) = triggerStatus w"
  "statusChangedAt (persistSessionState w) = statusChangedAt w"
  "now (persistSessionState w) = now w"
  "timers (persistSessionState w) = timers w"
  "nextTimerId (persistSessionState w) = nextTimerId w"
  "pendingTimers (persistSessionState w) = pendingTimers w"
  "storageWritable (persistSessionState w) = storageWritable w"
  "objects (persistSessionState w) = objects w"
  "statusLog (persistSessionState w) = statusLog w"
  "activeObjects (persistSessionState w) = activeObjects w"
  "dismissedObjects (persistSessionState w) = dismissedObjects w"
  "listeners (persistSessionState w) = listeners w"
  "received (persistSessionState w) = received w"
  "timerTimeouts (persistSessionState w) = timerTimeouts w"
  by (simp_all add: persistSessionState_def)

lemma persistSessionState_storage:
  "storage (persistSessionState w) =
     (if storageWritable w
      then Some \<lparr>snapTriggerStatus = triggerStatus w, snapStatusChangedAt = statusChangedAt w,
                 snapTimestamp = now w\<rparr>
      else storage w)"
  by (simp add: persistSessionState_def)

text \<open>
  C1. \<open>processTriggerActivation\<close> returns false and leaves the world as it is unless
  the object's status is exactly \<open>Armed\<close>. When it is, the call returns true; the
  object's own status is set to \<open>Triggered\<close> first (\<open>w1\<close> is the world after that
  transition); every other id ends \<open>Armed\<close> exactly when it was idle and some object
  with that id in the list (the given one, or the session's objects) has an arm
  condition that evaluates true in \<open>w1\<close>, and keeps its status otherwise; and the
  snapshot written last holds the final maps, when the store accepts the write.
\<close>

theorem processTriggerActivation_spec:
  fixes t :: MediaObject and allTriggers :: "MediaObject list option" and w :: World
  defines "r \<equiv> processTriggerActivation t allTriggers w"
    and "w1 \<equiv> setTriggerStatus (oid t) Triggered w"
  shows
  "(getTriggerStatus w (oid t) \<noteq> Armed \<longrightarrow> r = (False, w))
   \<and> (getTriggerStatus w (oid t) = Armed \<longrightarrow>
        fst r = True
        \<and> triggerStatus w1 = (triggerStatus w)(oid t \<mapsto> Triggered)
        \<and> triggerStatus (snd r) (oid t) = Some Triggered
        \<and> (\<forall>x. x \<noteq> oid t \<longrightarrow>
              triggerStatus (snd r) x =
                (if getTriggerStatus w x = Idle \<and>
                    (\<exists>d\<in>set (orSessionObjects allTriggers w).
                        oid d = x \<and> fst (evaluateArmCondition d allTriggers w1))
                 then Some Armed else triggerStatus w x))
        \<and> storage (snd r) =
            (if storageWritable w
             then Some \<lparr>snapTriggerStatus = triggerStatus (snd r),
                        snapStatusChangedAt = statusChangedAt (snd r),
                        snapTimestamp = now w\<rparr>
             else storage w))"
proof (cases "getTriggerStatus w (oid t) = Armed")
  case False
  then show ?thesis by (simp add: r_def processTriggerActivation_def)
next
  case True
  define objs where "objs = orSessionObjects allTriggers w"
  define w2 where "w2 = updateDependentTriggers (oid t) objs w1"
  have os: "orSessionObjects allTriggers w1 = objs"
    by (simp add: objs_def orSessionObjects_def w1_def setTriggerStatus_fields
          split: option.splits)
  have r: "r = (True, persistSessionState w2)"
    using True by (simp add: r_def processTriggerActivation_def Let_def w1_def[symmetric] os w2_def)
  have st1: "triggerStatus w1 = (triggerStatus w)(oid t \<mapsto> Triggered)"
    by (simp add: w1_def setTriggerStatus_fields)
  have g: "getTriggerStatus w1 x = getTriggerStatus w x" if "x \<noteq> oid t" for x
    using that by (simp add: getTriggerStatus_def st1)
  have st2: "triggerStatus w2 x =
     (if x \<noteq> oid t \<and> getTriggerStatus w1 x = Idle \<and>
         (\<exists>d\<in>set objs. oid d = x \<and> fst (evaluateArmCondition d allTriggers w1))
      then Some Armed else triggerStatus w1 x)" for x
    unfolding w2_def by (rule updateDependentTriggers_status)
  have own: "triggerStatus (snd r) (oid t) = Some Triggered"
    by (simp add: r persistSessionState_fields st2 st1)
  have others: "triggerStatus (snd r) x =
                (if getTriggerStatus w x = Idle \<and>
                    (\<exists>d\<in>set objs. oid d = x \<and> fst (evaluateArmCondition d allTriggers w1))
                 then Some Armed else triggerStatus w x)" if "x \<noteq> oid t" for x
    using that by (auto simp add: r persistSessionState_fields st2 g st1)
  have fr: "storageWritable w2 = storageWritable w" "now w2 = now w" "storage w2 = storage w"
    by (simp_all add: w2_def updateDependentTriggers_def updateDependentLoop_frame w1_def
          setTriggerStatus_fields)
  have sto: "storage (snd r) =
            (if storageWritable w
             then Some \<lparr>snapTriggerStatus = triggerStatus (snd r),
                        snapStatusChangedAt = statusChangedAt (snd r),
                        snapTimestamp = now w\<rparr>
             else storage w)"
    by (simp add: r persistSessionState_storage persistSessionState_fields fr)
  have "fst r = True" by (simp add: r)
  with True st1 own others sto show ?thesis
    unfolding objs_def by blast
qed


lemma afterTrigger_verdict:
  "armCondition t = Some (afterTrigger d) \<Longrightarrow>
   fst (evaluateArmCondition t a w) = (d = [] \<or> fired (triggerStatus w d))"
  by (simp add: evaluateArmCondition_def afterTrigger_def)

lemmas chain_defs =
  getTriggerStatus_def setTriggerStatus_def notifyStatusChange_def persistSessionState_def
  evaluateArmCondition_def fired_def updateDependentTriggers_def orSessionObjects_def
  processTriggerActivation_def completeTrigger_def scheduleStatusChange_def
  scheduleArmEvaluation_def setTimeout_def clearTimeout_def truthyTimer_def numOr_def

lemma chainWorld_eq:
  "chainWorld =
     \<lparr>now = 0, timers = [], nextTimerId = 1, storage = None, storageWritable = True,
      triggerStatus = [''A'' \<mapsto> Armed, ''B'' \<mapsto> Idle, ''C'' \<mapsto> Idle],
      statusChangedAt = Map.empty, pendingTimers = [],
      objects = [objA, objB, objC], statusLog = [], activeObjects = {}, dismissedObjects = {},
      listeners = {0}, received = (\<lambda>l. []), timerTimeouts = []\<rparr>"
  by (simp add: chainWorld_def listeningWorld_def initialWorld_def onTriggerActivation_def
        initializeSession_def clearAllTimers_def restoreSessionState_def
        evaluateArmCondition_def fired_def objA_def objB_def objC_def plainObject_def
        afterTrigger_def)

theorem processTriggerActivation_spec_witness:
  "getTriggerStatus chainWorld (oid objA) = Armed \<and>
   getTriggerStatus chainWorld (oid objB) \<noteq> Armed \<and>
   processTriggerActivation objB None chainWorld = (False, chainWorld) \<and>
   fst (processTriggerActivation objA None chainWorld) = True \<and>
   triggerStatus (snd (processTriggerActivation objA None chainWorld)) ''A'' = Some Triggered \<and>
   triggerStatus (snd (processTriggerActivation objA None chainWorld)) ''B'' = Some Armed \<and>
   triggerStatus (snd (processTriggerActivation objA None chainWorld)) ''C'' = Some Idle \<and>
   map_option snapTimestamp (storage (snd (processTriggerActivation objA None chainWorld)))
     = Some 0"
proof -
  have a: "getTriggerStatus chainWorld (oid objA) = Armed"
    and b: "getTriggerStatus chainWorld (oid objB) \<noteq> Armed"
    by (simp_all add: getTriggerStatus_def chainWorld_eq objA_def objB_def plainObject_def)
  note A = processTriggerActivation_spec [of chainWorld objA None]
  note B = processTriggerActivation_spec [of chainWorld objB None]
  from B b have nb: "processTriggerActivation objB None chainWorld = (False, chainWorld)"
    by blast
  from A a have fa: "fst (processTriggerActivation objA None chainWorld) = True" by blast
  have rest:
   "triggerStatus (snd (processTriggerActivation objA None chainWorld)) ''A'' = Some Triggered \<and>
    triggerStatus (snd (processTriggerActivation objA None chainWorld)) ''B'' = Some Armed \<and>
    triggerStatus (snd (processTriggerActivation objA None chainWorld)) ''C'' = Some Idle \<and>
    map_option snapTimestamp (storage (snd (processTriggerActivation objA None chainWorld)))
      = Some 0"
    by (simp add: chainWorld_eq chain_defs objA_def objB_def objC_def plainObject_def
          afterTrigger_def Let_def)
  show ?thesis using a b nb fa rest by simp
qed


lemma processTriggerActivation_armed:
  "getTriggerStatus w (oid t) = Armed \<Longrightarrow>
   processTriggerActivation t al w =
     (True, persistSessionState
              (updateDependentTriggers (oid t) (orSessionObjects al w)
                 (setTriggerStatus (oid t) Triggered w)))"
  by (simp add: processTriggerActivation_def Let_def orSessionObjects_def setTriggerStatus_fields
        split: option.splits)

lemma processTriggerActivation_status:
  assumes "getTriggerStatus w (oid t) = Armed"
  shows "triggerStatus (snd (processTriggerActivation t al w)) x =
           (if x = oid t then Some Triggered
            else if getTriggerStatus w x = Idle \<and>
                    (\<exists>d\<in>set (orSessionObjects al w). oid d = x \<and>
                        fst (evaluateArmCondition d None (setTriggerStatus (oid t) Triggered w)))
                 then Some Armed else triggerStatus w x)"
  by (auto simp add: processTriggerActivation_armed[OF assms] persistSessionState_fields
        updateDependentTriggers_status[where a = None] setTriggerStatus_fields
        getTriggerStatus_def)

text \<open>
  C7. The sweep does not cascade. For a chain in which \<open>B\<close> waits for \<open>A\<close> and \<open>C\<close>
  waits for \<open>B\<close>, with \<open>A\<close> armed and \<open>B\<close>, \<open>C\<close> idle, one
  \<open>processTriggerActivation\<close> on \<open>A\<close> (over the three objects in any order) arms \<open>B\<close>
  and leaves \<open>C\<close> idle; \<open>C\<close> is armed only by the later activation of \<open>B\<close>.
\<close>

theorem sweep_is_not_transitive:
  assumes ids: "oid A = a" "oid B = b" "oid C = c" "a \<noteq> b" "a \<noteq> c" "b \<noteq> c" "b \<noteq> []"
    and conds: "armCondition B = Some (afterTrigger a)" "armCondition C = Some (afterTrigger b)"
    and init: "getTriggerStatus w a = Armed" "getTriggerStatus w b = Idle"
              "getTriggerStatus w c = Idle"
    and objs: "set objs = {A, B, C}"
  shows "fst (processTriggerActivation A (Some objs) w) = True
       \<and> getTriggerStatus (snd (processTriggerActivation A (Some objs) w)) a = Triggered
       \<and> getTriggerStatus (snd (processTriggerActivation A (Some objs) w)) b = Armed
       \<and> getTriggerStatus (snd (processTriggerActivation A (Some objs) w)) c = Idle
       \<and> getTriggerStatus
           (snd (processTriggerActivation B (Some objs)
                  (snd (processTriggerActivation A (Some objs) w)))) c = Armed"
proof -
  define w' where "w' = snd (processTriggerActivation A (Some objs) w)"
  have armedA: "getTriggerStatus w (oid A) = Armed" using ids init by simp
  have nf: "\<not> fired (triggerStatus w b)" using init(2) by (rule not_fired_idle)
  have st: "triggerStatus w' x =
           (if x = a then Some Triggered
            else if getTriggerStatus w x = Idle \<and>
                    (\<exists>d\<in>{A, B, C}. oid d = x \<and>
                        fst (evaluateArmCondition d None (setTriggerStatus a Triggered w)))
                 then Some Armed else triggerStatus w x)" for x
    unfolding w'_def processTriggerActivation_status[OF armedA]
    by (simp add: orSessionObjects_def objs ids)
  have sa: "triggerStatus w' a = Some Triggered" by (simp add: st)
  have sb: "triggerStatus w' b = Some Armed"
    using ids init conds
    by (simp add: st afterTrigger_verdict setTriggerStatus_fields fired_def)
  have sc: "getTriggerStatus w' c = Idle"
    using ids init conds nf
    by (simp add: getTriggerStatus_def st afterTrigger_verdict setTriggerStatus_fields)
  have armedB: "getTriggerStatus w' (oid B) = Armed"
    using sb ids by (simp add: getTriggerStatus_def)
  have sc2: "triggerStatus (snd (processTriggerActivation B (Some objs) w')) c = Some Armed"
    unfolding processTriggerActivation_status[OF armedB]
    using ids conds sc
    by (auto simp add: orSessionObjects_def objs afterTrigger_verdict setTriggerStatus_fields
          fired_def)
  have "fst (processTriggerActivation A (Some objs) w) = True"
    by (simp add: processTriggerActivation_armed[OF armedA])
  with sa sb sc sc2 show ?thesis
    unfolding w'_def[symmetric] by (simp add: getTriggerStatus_def)
qed

theorem sweep_is_not_transitive_witness:
  "getTriggerStatus chainWorld ''A'' = Armed \<and>
   getTriggerStatus chainWorld ''B'' = Idle \<and>
   getTriggerStatus chainWorld ''C'' = Idle \<and>
   fst (processTriggerActivation objA (Some [objC, objB, objA]) chainWorld) = True \<and>
   getTriggerStatus (snd (processTriggerActivation objA (Some [objC, objB, objA]) chainWorld))
     ''B'' = Armed \<and>
   getTriggerStatus (snd (processTriggerActivation objA (Some [objC, objB, objA]) chainWorld))
     ''C'' = Idle"
proof -
  have init: "getTriggerStatus chainWorld ''A'' = Armed" "getTriggerStatus chainWorld ''B'' = Idle"
    "getTriggerStatus chainWorld ''C'' = Idle"
    by (simp_all add: getTriggerStatus_def chainWorld_eq)
  have "set [objC, objB, objA] = {objA, objB, objC}" by auto
  from sweep_is_not_transitive [of objA "''A''" objB "''B''" objC "''C''" chainWorld
         "[objC, objB, objA]", OF _ _ _ _ _ _ _ _ _ init this]
  show ?thesis using init by (simp add: objA_def objB_def objC_def plainObject_def)
qed

section \<open>The activation gate\<close>

lemma processTriggerActivation_frame:
  "activeObjects (snd (processTriggerActivation t al w)) = activeObjects w"
  "dismissedObjects (snd (processTriggerActivation t al w)) = dismissedObjects w"
  "listeners (snd (processTriggerActivation t al w)) = listeners w"
  "received (snd (processTriggerActivation t al w)) = received w"
  "timerTimeouts (snd (processTriggerActivation t al w)) = timerTimeouts w"
  "now (snd (processTriggerActivation t al w)) = now w"
  "objects (snd (processTriggerActivation t al w)) = objects w"
  by (simp_all add: processTriggerActivation_def Let_def persistSessionState_fields
        updateDependentTriggers_def updateDependentLoop_frame setTriggerStatus_fields)

lemma processTriggerActivation_fst:
  "fst (processTriggerActivation t al w) = (getTriggerStatus w (oid t) = Armed)"
  by (simp add: processTriggerActivation_def Let_def)

lemma notifyActivation_noop:
  "oid obj \<in> activeObjects w \<or> (armCondition obj \<noteq> None \<and> getTriggerStatus w (oid obj) \<noteq> Armed)
   \<Longrightarrow> notifyActivation obj al w = w"
  by (auto simp add: notifyActivation_def)

lemma notifyActivation_passes:
  assumes "oid obj \<notin> activeObjects w"
    and "armCondition obj = None \<or> getTriggerStatus w (oid obj) = Armed"
  shows "activeObjects (notifyActivation obj al w) = insert (oid obj) (activeObjects w)"
    and "listeners (notifyActivation obj al w) = listeners w"
    and "received (notifyActivation obj al w) =
           (\<lambda>l. if l \<in> listeners w then received w l @ [obj] else received w l)"
  using assms
  by (auto simp add: notifyActivation_def callListeners_def setTimeout_def Let_def
        processTriggerActivation_frame processTriggerActivation_fst case_prod_beta
        split: option.splits cong: if_cong)

text \<open>
  C2, as the code has it. Two successive \<open>notifyActivation\<close> calls for one object
  call each observer at most once. They call each observer exactly once when the first
  call passes the gate, that is, when the object is not already active and either
  carries no arm condition or is armed; the second call is then a no-op, because the
  id is in the active set. When the first call does not pass the gate, both calls leave
  the world as it is and no observer is called.
\<close>

theorem notifyActivation_twice:
  "(oid obj \<notin> activeObjects w \<and>
      (armCondition obj = None \<or> getTriggerStatus w (oid obj) = Armed) \<longrightarrow>
       (\<forall>l\<in>listeners w.
           received (notifyActivation obj al2 (notifyActivation obj al1 w)) l
             = received w l @ [obj])
       \<and> oid obj \<in> activeObjects (notifyActivation obj al1 w)
       \<and> notifyActivation obj al2 (notifyActivation obj al1 w) = notifyActivation obj al1 w)
   \<and> (oid obj \<in> activeObjects w \<or>
        (armCondition obj \<noteq> None \<and> getTriggerStatus w (oid obj) \<noteq> Armed) \<longrightarrow>
       notifyActivation obj al2 (notifyActivation obj al1 w) = w)
   \<and> (\<forall>l. received (notifyActivation obj al2 (notifyActivation obj al1 w)) l = received w l
          \<or> received (notifyActivation obj al2 (notifyActivation obj al1 w)) l
               = received w l @ [obj])"
proof (cases "oid obj \<in> activeObjects w \<or>
        (armCondition obj \<noteq> None \<and> getTriggerStatus w (oid obj) \<noteq> Armed)")
  case True
  then have "notifyActivation obj al1 w = w" by (rule notifyActivation_noop)
  moreover from True have "notifyActivation obj al2 w = w" by (rule notifyActivation_noop)
  ultimately show ?thesis using True by auto
next
  case False
  then have p: "oid obj \<notin> activeObjects w"
    "armCondition obj = None \<or> getTriggerStatus w (oid obj) = Armed" by auto
  have act: "oid obj \<in> activeObjects (notifyActivation obj al1 w)"
    by (simp add: notifyActivation_passes(1)[OF p])
  then have second: "notifyActivation obj al2 (notifyActivation obj al1 w)
      = notifyActivation obj al1 w"
    by (simp add: notifyActivation_noop)
  show ?thesis
    using False p act by (auto simp add: second notifyActivation_passes(3)[OF p])
qed

lemmas coord_defs =
  notifyActivation_def callListeners_def dismissTrigger_def manuallyActivate_def
  checkShakeTrigger_def startTimerTriggers_def clearTimerTriggers_def fireTimer_def

theorem notifyActivation_twice_counterexample:
  "0 \<in> listeners chainWorld \<and>
   oid objB \<notin> activeObjects chainWorld \<and>
   received chainWorld 0 = [] \<and>
   received (notifyActivation objB None (notifyActivation objB None chainWorld)) 0 = []"
  by (simp add: chainWorld_eq coord_defs chain_defs objB_def plainObject_def afterTrigger_def)

theorem notifyActivation_twice_witness:
  "oid objA \<notin> activeObjects chainWorld \<and>
   armCondition objA = None \<and>
   0 \<in> listeners chainWorld \<and>
   received (notifyActivation objA None (notifyActivation objA None chainWorld)) 0 = [objA] \<and>
   armCondition objB \<noteq> None \<and>
   getTriggerStatus chainWorld (oid objB) \<noteq> Armed \<and>
   notifyActivation objB None (notifyActivation objB None chainWorld) = chainWorld"
proof -
  have a: "oid objA \<notin> activeObjects chainWorld" "armCondition objA = None"
    "0 \<in> listeners chainWorld" "received chainWorld 0 = []"
    by (simp_all add: chainWorld_eq objA_def plainObject_def)
  have b: "armCondition objB \<noteq> None" "getTriggerStatus chainWorld (oid objB) \<noteq> Armed"
    by (simp_all add: chainWorld_eq objB_def plainObject_def getTriggerStatus_def)
  from notifyActivation_twice [of objA chainWorld None None] a
  have "received (notifyActivation objA None (notifyActivation objA None chainWorld)) 0
          = received chainWorld 0 @ [objA]"
    by blast
  then have
    "received (notifyActivation objA None (notifyActivation objA None chainWorld)) 0 = [objA]"
    using a by simp
  moreover from notifyActivation_twice [of objB chainWorld None None] b
  have "notifyActivation objB None (notifyActivation objB None chainWorld) = chainWorld"
    by blast
  ultimately show ?thesis using a b by simp
qed

subsection \<open>The timer table\<close>

lemma timersExtend_refl: "timersExtend Q w w"
  by (simp add: timersExtend_def list_all_iff)

lemma timersExtend_trans:
  "timersExtend Q w w' \<Longrightarrow> timersExtend Q w' w'' \<Longrightarrow> timersExtend Q w w''"
  by (fastforce simp add: timersExtend_def list_all_iff)

lemma timersExtend_mono:
  "timersExtend Q w w' \<Longrightarrow> (\<And>cb. Q cb \<Longrightarrow> R cb) \<Longrightarrow> timersExtend R w w'"
  by (fastforce simp add: timersExtend_def list_all_iff)

lemma timersExtend_same:
  "timers w' = timers w \<Longrightarrow> nextTimerId w' = nextTimerId w \<Longrightarrow> timersExtend Q w w'"
  by (simp add: timersExtend_def list_all_iff)

lemma timersExtend_setTimeout: "Q cb \<Longrightarrow> timersExtend Q w (snd (setTimeout cb dl w))"
  by (auto simp add: timersExtend_def list_all_iff setTimeout_def)

lemma timersExtend_clearTimeout: "timersExtend Q w (clearTimeout t w)"
  by (auto simp add: timersExtend_def list_all_iff clearTimeout_def)

lemma timersExtend_evaluateArmCondition:
  "timersExtend benignCb w (snd (evaluateArmCondition t a w))"
  by (auto simp add: timersExtend_def list_all_iff evaluateArmCondition_def
        scheduleArmEvaluation_def setTimeout_def Let_def
        split: option.splits ConditionType.splits)

lemma timersExtend_setTriggerStatus: "timersExtend Q w (setTriggerStatus k s w)"
  by (rule timersExtend_same) (simp_all add: setTriggerStatus_fields)

lemma timersExtend_persist: "timersExtend Q w (persistSessionState w)"
  by (rule timersExtend_same) (simp_all add: persistSessionState_fields)

lemma timersExtend_loop: "timersExtend benignCb w (updateDependentLoop c al ts w)"
proof (induction ts arbitrary: w)
  case Nil
  show ?case by (simp add: timersExtend_refl)
next
  case (Cons t ts)
  show ?case
  proof (cases "oid t = c \<or> getTriggerStatus w (oid t) \<noteq> Idle")
    case True
    then show ?thesis
      by (simp add: updateDependentLoop_Cons Cons.IH del: updateDependentLoop.simps(2))
  next
    case False
    define w1 where "w1 = snd (evaluateArmCondition t (Some al) w)"
    define w2 where "w2 = (if fst (evaluateArmCondition t (Some al) w)
                           then setTriggerStatus (oid t) Armed w1 else w1)"
    have e1: "timersExtend benignCb w w1"
      unfolding w1_def by (rule timersExtend_evaluateArmCondition)
    have "timersExtend benignCb w1 w2"
      by (simp add: w2_def timersExtend_refl timersExtend_setTriggerStatus)
    with e1 have "timersExtend benignCb w w2" by (rule timersExtend_trans)
    moreover have "updateDependentLoop c al (t # ts) w = updateDependentLoop c al ts w2"
      using False
      by (simp add: updateDependentLoop_Cons w2_def w1_def del: updateDependentLoop.simps(2))
    ultimately show ?thesis
      using timersExtend_trans[OF _ Cons.IH[of w2]] by simp
  qed
qed

lemma timersExtend_processTriggerActivation:
  "timersExtend benignCb w (snd (processTriggerActivation t al w))"
proof (cases "getTriggerStatus w (oid t) = Armed")
  case True
  define w1 where "w1 = setTriggerStatus (oid t) Triggered w"
  define w2 where "w2 = updateDependentTriggers (oid t) (orSessionObjects al w) w1"
  have a: "timersExtend benignCb w w1"
    unfolding w1_def by (rule timersExtend_setTriggerStatus)
  have b: "timersExtend benignCb w1 w2"
    unfolding w2_def updateDependentTriggers_def by (rule timersExtend_loop)
  have c: "timersExtend benignCb w2 (persistSessionState w2)"
    by (rule timersExtend_persist)
  from timersExtend_trans[OF a timersExtend_trans[OF b c]] show ?thesis
    unfolding w2_def w1_def
    by (simp add: processTriggerActivation_armed[OF True])
next
  case False
  then show ?thesis by (simp add: processTriggerActivation_def timersExtend_refl)
qed

lemma notifyActivation_unfold:
  "notifyActivation obj al w =
     (if oid obj \<in> activeObjects w then w
      else if armCondition obj = None then activationTail obj w
      else if getTriggerStatus w (oid obj) \<noteq> Armed then w
      else activationTail obj (snd (processTriggerActivation obj al w)))"
  by (auto simp add: notifyActivation_def activationTail_def Let_def case_prod_beta
        processTriggerActivation_fst split: option.splits)

lemma timersExtend_activationTail: "timersExtend benignCb v (activationTail obj v)"
proof -
  have a: "timersExtend benignCb v
             (callListeners obj (v\<lparr>activeObjects := insert (oid obj) (activeObjects v)\<rparr>))"
    by (rule timersExtend_same) (simp_all add: callListeners_def)
  show ?thesis
    unfolding activationTail_def Let_def
    by (auto intro: a timersExtend_trans[OF a timersExtend_setTimeout])
qed

lemma timersExtend_notifyActivation:
  "timersExtend benignCb w (notifyActivation obj al w)"
  unfolding notifyActivation_unfold
  by (auto intro: timersExtend_refl timersExtend_activationTail
        timersExtend_trans[OF timersExtend_processTriggerActivation timersExtend_activationTail])


subsection \<open>Timer triggers\<close>

lemma startTimerTriggers_single:
  "startTimerTriggers [obj] w =
     (if active obj \<and> ttype (trigger obj) = Timer \<and> map_of (timerTimeouts w) (oid obj) = None
      then w\<lparr>timers := timers w @
                 [(nextTimerId w, now w + max 0 (numOr (delay (params (trigger obj))) 5000),
                   TimerTriggerCb obj)],
             nextTimerId := Suc (nextTimerId w),
             timerTimeouts := AList.update (oid obj) (nextTimerId w) (timerTimeouts w)\<rparr>
      else w)"
  by (auto simp add: startTimerTriggers_def setTimeout_def)

lemma startTimerTriggers_Cons:
  "startTimerTriggers (obj # objs) w = startTimerTriggers objs (startTimerTriggers [obj] w)"
  by (simp add: startTimerTriggers_def)

lemma startTimerTriggers_keeps_entries:
  "map_of (timerTimeouts w) k \<noteq> None \<Longrightarrow>
   map_of (timerTimeouts (startTimerTriggers objs w)) k \<noteq> None"
proof (induction objs arbitrary: w)
  case Nil
  then show ?case by (simp add: startTimerTriggers_def)
next
  case (Cons obj objs)
  have "map_of (timerTimeouts (startTimerTriggers [obj] w)) k \<noteq> None"
    using Cons.prems by (simp add: startTimerTriggers_single update_conv')
  then have "map_of (timerTimeouts (startTimerTriggers objs (startTimerTriggers [obj] w))) k
               \<noteq> None"
    by (rule Cons.IH)
  then show ?case by (subst startTimerTriggers_Cons)
qed

lemma startTimerTriggers_all_pending:
  "x \<in> set objs \<Longrightarrow> active x \<Longrightarrow> ttype (trigger x) = Timer \<Longrightarrow>
   map_of (timerTimeouts (startTimerTriggers objs w)) (oid x) \<noteq> None"
proof (induction objs arbitrary: w)
  case Nil
  then show ?case by simp
next
  case (Cons obj objs)
  have "map_of (timerTimeouts (startTimerTriggers objs (startTimerTriggers [obj] w))) (oid x)
          \<noteq> None"
  proof (cases "x = obj")
    case True
    have "map_of (timerTimeouts (startTimerTriggers [obj] w)) (oid x) \<noteq> None"
      using True Cons.prems by (simp add: startTimerTriggers_single update_conv')
    then show ?thesis by (rule startTimerTriggers_keeps_entries)
  next
    case False
    with Cons.prems have "x \<in> set objs" by simp
    then show ?thesis using Cons.prems(2,3) by (rule Cons.IH)
  qed
  then show ?case by (subst startTimerTriggers_Cons)
qed

lemma startTimerTriggers_noop:
  "(\<And>x. x \<in> set objs \<Longrightarrow> active x \<Longrightarrow> ttype (trigger x) = Timer \<Longrightarrow>
         map_of (timerTimeouts w) (oid x) \<noteq> None) \<Longrightarrow>
   startTimerTriggers objs w = w"
proof (induction objs)
  case Nil
  show ?case by (simp add: startTimerTriggers_def)
next
  case (Cons obj objs)
  have one: "startTimerTriggers [obj] w = w"
    using Cons.prems[of obj] by (auto simp add: startTimerTriggers_single)
  have "startTimerTriggers objs w = w"
    by (rule Cons.IH) (use Cons.prems in auto)
  then show ?case by (subst startTimerTriggers_Cons) (simp add: one)
qed

lemma startTimerTriggers_idem:
  "startTimerTriggers objs (startTimerTriggers objs w) = startTimerTriggers objs w"
  by (rule startTimerTriggers_noop) (rule startTimerTriggers_all_pending)

lemma find_fresh:
  fixes n :: nat
  shows "list_all (\<lambda>e. fst e < n) ts \<Longrightarrow>
         find (\<lambda>e. fst e = n) (ts @ (n, x) # ext) = Some (n, x)"
  by (induction ts) auto

lemma filter_fresh:
  fixes n :: nat
  shows "list_all (\<lambda>e. fst e < n) ts \<Longrightarrow> filter (\<lambda>e. fst e \<noteq> n) ts = ts"
  by (induction ts) auto

lemma fireTimer_absent:
  "list_all (\<lambda>e. fst e \<noteq> n) (timers w) \<Longrightarrow> fireTimer n w = w"
proof -
  assume "list_all (\<lambda>e. fst e \<noteq> n) (timers w)"
  then have "find (\<lambda>e. fst e = n) (timers w) = None"
    by (fastforce simp add: find_None_iff list_all_iff)
  then show ?thesis by (simp add: fireTimer_def)
qed

lemma timersExtend_avoids:
  assumes "timersExtend Q v v'" and "list_all (\<lambda>e. fst e \<noteq> n) (timers v)"
    and "n < nextTimerId v"
  shows "list_all (\<lambda>e. fst e \<noteq> n) (timers v')"
  using assms by (fastforce simp add: timersExtend_def list_all_iff)


lemma activationTail_frame:
  "timerTimeouts (activationTail obj v) = timerTimeouts v"
  "triggerStatus (activationTail obj v) = triggerStatus v"
  "objects (activationTail obj v) = objects v"
  "now (activationTail obj v) = now v"
  by (simp_all add: activationTail_def callListeners_def setTimeout_def Let_def)

lemma notifyActivation_timerTimeouts:
  "timerTimeouts (notifyActivation obj al w) = timerTimeouts w"
  by (simp add: notifyActivation_unfold activationTail_frame processTriggerActivation_frame)

text \<open>
  C8, as the code has it. \<open>startTimerTriggers\<close> is idempotent: running it twice in
  succession equals running it once, and a call for an object whose timer is pending
  changes nothing. A call for an active timer object with no pending entry registers
  exactly one timeout, due \<open>delay\<close> ms after the call, where an absent \<open>delay\<close> and a
  \<open>delay\<close> of 0 both count as 5000. When the host delivers that timeout, the
  activation is requested once at the due time and the object's entry is removed; the
  timeout is gone from the table, so a second delivery does nothing. With the entry
  removed, a later call starts a new timer.
\<close>

theorem startTimerTriggers_idempotent_while_pending:
  fixes obj :: MediaObject and w :: World
  defines "n \<equiv> nextTimerId w"
    and "dl \<equiv> numOr (delay (params (trigger obj))) 5000"
  defines "started \<equiv> startTimerTriggers [obj] w"
    and "v \<equiv> w\<lparr>nextTimerId := Suc n, now := now w + max 0 dl,
                 timerTimeouts := AList.update (oid obj) n (timerTimeouts w)\<rparr>"
  shows
  "startTimerTriggers objs (startTimerTriggers objs w) = startTimerTriggers objs w
   \<and> (active obj \<and> ttype (trigger obj) = Timer \<and> map_of (timerTimeouts w) (oid obj) \<noteq> None
        \<longrightarrow> started = w)
   \<and> (active obj \<and> ttype (trigger obj) = Timer \<and> map_of (timerTimeouts w) (oid obj) = None
        \<longrightarrow> started =
              w\<lparr>timers := timers w @ [(n, now w + max 0 dl, TimerTriggerCb obj)],
                nextTimerId := Suc n,
                timerTimeouts := AList.update (oid obj) n (timerTimeouts w)\<rparr>
           \<and> startTimerTriggers [obj] started = started
           \<and> (timersFresh w \<longrightarrow>
                 fireTimer n started =
                   (notifyActivation obj None v)
                     \<lparr>timerTimeouts := AList.delete (oid obj) (timerTimeouts v)\<rparr>
                 \<and> map_of (timerTimeouts (fireTimer n started)) (oid obj) = None
                 \<and> fireTimer n (fireTimer n started) = fireTimer n started))"
proof -
  have idem: "startTimerTriggers objs (startTimerTriggers objs w) = startTimerTriggers objs w"
    by (rule startTimerTriggers_idem)
  have pending: "started = w"
    if "active obj \<and> ttype (trigger obj) = Timer \<and> map_of (timerTimeouts w) (oid obj) \<noteq> None"
    using that by (auto simp add: started_def startTimerTriggers_single)
  have fresh: "started =
              w\<lparr>timers := timers w @ [(n, now w + max 0 dl, TimerTriggerCb obj)],
                nextTimerId := Suc n,
                timerTimeouts := AList.update (oid obj) n (timerTimeouts w)\<rparr>"
    if "active obj \<and> ttype (trigger obj) = Timer \<and> map_of (timerTimeouts w) (oid obj) = None"
    using that by (simp add: started_def startTimerTriggers_single n_def dl_def)
  have again: "startTimerTriggers [obj] started = started"
    unfolding started_def by (rule startTimerTriggers_idem)
  have fire: "fireTimer n started =
                   (notifyActivation obj None v)
                     \<lparr>timerTimeouts := AList.delete (oid obj) (timerTimeouts v)\<rparr>
                 \<and> map_of (timerTimeouts (fireTimer n started)) (oid obj) = None
                 \<and> fireTimer n (fireTimer n started) = fireTimer n started"
    if a: "active obj \<and> ttype (trigger obj) = Timer \<and> map_of (timerTimeouts w) (oid obj) = None"
      and f: "timersFresh w"
  proof -
    have fr: "list_all (\<lambda>e. fst e < n) (timers w)" using f by (simp add: timersFresh_def n_def)
    have fnd: "find (\<lambda>e. fst e = n) (timers started)
                 = Some (n, now w + max 0 dl, TimerTriggerCb obj)"
      by (simp add: fresh[OF a] find_fresh[OF fr])
    have flt: "filter (\<lambda>e. fst e \<noteq> n) (timers started) = timers w"
      by (simp add: fresh[OF a] filter_fresh[OF fr])
    have before: "started\<lparr>timers := timers w, now := max (now started) (now w + max 0 dl)\<rparr> = v"
      by (simp add: fresh[OF a] v_def)
    have f1: "fireTimer n started =
                   (notifyActivation obj None v)
                     \<lparr>timerTimeouts := AList.delete (oid obj) (timerTimeouts v)\<rparr>"
      by (simp add: fireTimer_def fnd flt before Let_def notifyActivation_timerTimeouts)
    have f2: "map_of (timerTimeouts (fireTimer n started)) (oid obj) = None"
      by (simp add: f1 delete_conv')
    have av: "list_all (\<lambda>e. fst e \<noteq> n) (timers v)"
      using fr by (auto simp add: v_def list_all_iff)
    have "list_all (\<lambda>e. fst e \<noteq> n) (timers (notifyActivation obj None v))"
      by (rule timersExtend_avoids[OF timersExtend_notifyActivation av]) (simp add: v_def)
    then have "list_all (\<lambda>e. fst e \<noteq> n) (timers (fireTimer n started))"
      by (simp add: f1)
    then have f3: "fireTimer n (fireTimer n started) = fireTimer n started"
      by (rule fireTimer_absent)
    from f1 f2 f3 show ?thesis by simp
  qed
  show ?thesis
  proof (intro conjI impI)
    show "startTimerTriggers objs (startTimerTriggers objs w) = startTimerTriggers objs w"
      by (rule idem)
  next
    assume "active obj \<and> ttype (trigger obj) = Timer \<and>
            map_of (timerTimeouts w) (oid obj) \<noteq> None"
    then show "started = w" by (rule pending)
  next
    assume "active obj \<and> ttype (trigger obj) = Timer \<and>
            map_of (timerTimeouts w) (oid obj) = None"
    then show "started =
              w\<lparr>timers := timers w @ [(n, now w + max 0 dl, TimerTriggerCb obj)],
                nextTimerId := Suc n,
                timerTimeouts := AList.update (oid obj) n (timerTimeouts w)\<rparr>"
      by (rule fresh)
  next
    show "startTimerTriggers [obj] started = started" by (rule again)
  next
    assume "active obj \<and> ttype (trigger obj) = Timer \<and>
            map_of (timerTimeouts w) (oid obj) = None" and "timersFresh w"
    then show "fireTimer n started =
                   (notifyActivation obj None v)
                     \<lparr>timerTimeouts := AList.delete (oid obj) (timerTimeouts v)\<rparr>"
      using fire by blast
  next
    assume "active obj \<and> ttype (trigger obj) = Timer \<and>
            map_of (timerTimeouts w) (oid obj) = None" and "timersFresh w"
    then show "map_of (timerTimeouts (fireTimer n started)) (oid obj) = None"
      using fire by blast
  next
    assume "active obj \<and> ttype (trigger obj) = Timer \<and>
            map_of (timerTimeouts w) (oid obj) = None" and "timersFresh w"
    then show "fireTimer n (fireTimer n started) = fireTimer n started"
      using fire by blast
  qed
qed

theorem startTimerTriggers_counterexample:
  "delay (params (trigger zeroDelayTimer)) = Some 0 \<and>
   now listeningWorld = 0 \<and>
   timers (startTimerTriggers [zeroDelayTimer] listeningWorld)
     = [(1, 5000, TimerTriggerCb zeroDelayTimer)] \<and>
   received (fireTimer 1 (startTimerTriggers [zeroDelayTimer] listeningWorld)) 0
     = [zeroDelayTimer] \<and>
   timers (startTimerTriggers [zeroDelayTimer]
            (fireTimer 1 (startTimerTriggers [zeroDelayTimer] listeningWorld)))
     = [(2, 35000, AutoDeactivateCb ''T''), (3, 10000, TimerTriggerCb zeroDelayTimer)]"
  by (simp add: startTimerTriggers_def fireTimer_def notifyActivation_def callListeners_def
        setTimeout_def numOr_def zeroDelayTimer_def plainObject_def listeningWorld_def
        initialWorld_def onTriggerActivation_def Let_def)

theorem startTimerTriggers_idempotent_while_pending_witness:
  "active zeroDelayTimer \<and> ttype (trigger zeroDelayTimer) = Timer \<and>
   map_of (timerTimeouts listeningWorld) (oid zeroDelayTimer) = None \<and>
   timersFresh listeningWorld \<and>
   map_of (timerTimeouts (startTimerTriggers [zeroDelayTimer] listeningWorld))
     (oid zeroDelayTimer) \<noteq> None \<and>
   startTimerTriggers [zeroDelayTimer] (startTimerTriggers [zeroDelayTimer] listeningWorld)
     = startTimerTriggers [zeroDelayTimer] listeningWorld \<and>
   timers (startTimerTriggers [zeroDelayTimer] listeningWorld)
     = [(1, 5000, TimerTriggerCb zeroDelayTimer)] \<and>
   fireTimer 1 (fireTimer 1 (startTimerTriggers [zeroDelayTimer] listeningWorld))
     = fireTimer 1 (startTimerTriggers [zeroDelayTimer] listeningWorld)"
proof -
  have h: "active zeroDelayTimer \<and> ttype (trigger zeroDelayTimer) = Timer \<and>
      map_of (timerTimeouts listeningWorld) (oid zeroDelayTimer) = None"
    and f: "timersFresh listeningWorld"
    and n: "nextTimerId listeningWorld = 1" "now listeningWorld = 0"
      "timers listeningWorld = []"
      "numOr (delay (params (trigger zeroDelayTimer))) 5000 = 5000"
    by (simp_all add: zeroDelayTimer_def plainObject_def listeningWorld_def initialWorld_def
          onTriggerActivation_def timersFresh_def numOr_def)
  note T = startTimerTriggers_idempotent_while_pending
             [of "[zeroDelayTimer]" listeningWorld zeroDelayTimer]
  from T have i: "startTimerTriggers [zeroDelayTimer]
       (startTimerTriggers [zeroDelayTimer] listeningWorld)
     = startTimerTriggers [zeroDelayTimer] listeningWorld" by blast
  from T h f have once:
    "fireTimer (nextTimerId listeningWorld)
       (fireTimer (nextTimerId listeningWorld)
          (startTimerTriggers [zeroDelayTimer] listeningWorld))
     = fireTimer (nextTimerId listeningWorld)
         (startTimerTriggers [zeroDelayTimer] listeningWorld)" by blast
  from T h have st: "startTimerTriggers [zeroDelayTimer] listeningWorld =
      listeningWorld\<lparr>timers := timers listeningWorld @
           [(nextTimerId listeningWorld,
             now listeningWorld + max 0 (numOr (delay (params (trigger zeroDelayTimer))) 5000),
             TimerTriggerCb zeroDelayTimer)],
        nextTimerId := Suc (nextTimerId listeningWorld),
        timerTimeouts := AList.update (oid zeroDelayTimer) (nextTimerId listeningWorld)
                           (timerTimeouts listeningWorld)\<rparr>" by blast
  have tm: "timers (startTimerTriggers [zeroDelayTimer] listeningWorld)
     = [(1, 5000, TimerTriggerCb zeroDelayTimer)]"
    by (simp add: st n)
  have pe: "map_of (timerTimeouts (startTimerTriggers [zeroDelayTimer] listeningWorld))
     (oid zeroDelayTimer) \<noteq> None"
    by (simp add: st update_conv')
  from h f i once tm pe show ?thesis by (simp add: n)
qed

subsection \<open>Completion\<close>

lemma scheduleStatusChange_fields:
  "triggerStatus (scheduleStatusChange k s dl w) = triggerStatus w"
  "statusChangedAt (scheduleStatusChange k s dl w) = statusChangedAt w"
  "now (scheduleStatusChange k s dl w) = now w"
  "storage (scheduleStatusChange k s dl w) = storage w"
  "storageWritable (scheduleStatusChange k s dl w) = storageWritable w"
  "objects (scheduleStatusChange k s dl w) = objects w"
  by (simp_all add: scheduleStatusChange_def setTimeout_def clearTimeout_def Let_def
        split: option.splits)

lemma scheduleStatusChange_timers:
  "\<exists>pre. timers (scheduleStatusChange k s dl w)
           = pre @ [(nextTimerId w, now w + max 0 dl, StatusChangeCb k s)]
         \<and> set pre \<subseteq> set (timers w)"
  by (auto simp add: scheduleStatusChange_def setTimeout_def clearTimeout_def Let_def
        split: option.splits)

lemma evaluateArmCondition_timers_append:
  "\<exists>ext. timers (snd (evaluateArmCondition t a w)) = timers w @ ext"
  by (simp add: evaluateArmCondition_def scheduleArmEvaluation_def setTimeout_def Let_def
        split: option.splits ConditionType.splits)

lemma updateDependentLoop_timers_append:
  "\<exists>ext. timers (updateDependentLoop c al ts w) = timers w @ ext"
proof (induction ts arbitrary: w)
  case Nil
  show ?case by simp
next
  case (Cons t ts)
  show ?case
  proof (cases "oid t = c \<or> getTriggerStatus w (oid t) \<noteq> Idle")
    case True
    then show ?thesis
      by (simp add: updateDependentLoop_Cons Cons.IH del: updateDependentLoop.simps(2))
  next
    case False
    define w2 where "w2 = (if fst (evaluateArmCondition t (Some al) w)
                           then setTriggerStatus (oid t) Armed
                                  (snd (evaluateArmCondition t (Some al) w))
                           else snd (evaluateArmCondition t (Some al) w))"
    obtain e1 where e1: "timers w2 = timers w @ e1"
      using evaluateArmCondition_timers_append[of t "Some al" w]
      by (auto simp add: w2_def setTriggerStatus_fields)
    obtain e2 where e2: "timers (updateDependentLoop c al ts w2) = timers w2 @ e2"
      using Cons.IH[of w2] by blast
    have "updateDependentLoop c al (t # ts) w = updateDependentLoop c al ts w2"
      using False
      by (simp add: updateDependentLoop_Cons w2_def del: updateDependentLoop.simps(2))
    then show ?thesis using e1 e2 by simp
  qed
qed

lemma completeTrigger_noop:
  "getTriggerStatus w k \<noteq> Triggered \<Longrightarrow> completeTrigger k t al w = w"
  by (simp add: completeTrigger_def)

lemma completeTrigger_unfold:
  "getTriggerStatus w k = Triggered \<Longrightarrow>
   completeTrigger k t al w =
     persistSessionState
       (updateDependentTriggers k (orSessionObjects al w)
          (case (case t of None \<Rightarrow> find (\<lambda>x. oid x = k) (objects w) | Some x \<Rightarrow> Some x) of
             None \<Rightarrow> setTriggerStatus k Completed w
           | Some x \<Rightarrow>
               if repeatable x = Some True
               then if (case resetTimeout x of None \<Rightarrow> 30000 | Some n \<Rightarrow> n) > 0
                    then scheduleStatusChange k Armed
                           (case resetTimeout x of None \<Rightarrow> 30000 | Some n \<Rightarrow> n) w
                    else setTriggerStatus k Armed w
               else setTriggerStatus k Completed w))"
  by (simp add: completeTrigger_def Let_def split: option.splits)

lemma fireTimer_found:
  "find (\<lambda>e. fst e = n) (timers w) = Some (n, due, cb) \<Longrightarrow>
   fireTimer n w =
     runCallback cb (w\<lparr>timers := filter (\<lambda>e. fst e \<noteq> n) (timers w), now := max (now w) due\<rparr>)"
  by (simp add: fireTimer_def)

lemma runCallback_StatusChange_status:
  "triggerStatus (runCallback (StatusChangeCb k s) v) = (triggerStatus v)(k \<mapsto> s)"
  "now (runCallback (StatusChangeCb k s) v) = now v"
  by (simp_all add: Let_def persistSessionState_fields setTriggerStatus_fields)

text \<open>
  C3. \<open>completeTrigger\<close> leaves the world as it is unless the status of the id is
  \<open>Triggered\<close>. When it is, the object consulted is the one handed in, or else the
  session's object of that id. A repeatable object with a positive reset timeout
  (default 30000) stays triggered for now, and a timeout due that many ms later is in
  the host's table; when the host delivers it, the status is \<open>Armed\<close> at the due time and
  \<open>processTriggerActivation\<close> accepts the object again. A repeatable object with a
  timeout of 0 (or less) is armed at once and accepted again. Any other object becomes
  \<open>Completed\<close>. In every case the result is the sweep of the other objects followed by
  the snapshot: every other id is armed exactly when it was idle and an object of that
  id in the list has a condition that holds after the transition, and the snapshot
  holds the final maps when the store accepts the write.
\<close>

theorem completeTrigger_spec:
  fixes k :: string and t :: "MediaObject option" and al :: "MediaObject list option"
    and w :: World
  defines "obj \<equiv> (case t of None \<Rightarrow> find (\<lambda>x. oid x = k) (objects w) | Some x \<Rightarrow> Some x)"
  defines "rep \<equiv> (case obj of None \<Rightarrow> False | Some x \<Rightarrow> repeatable x = Some True)"
    and "timeout \<equiv> (case obj of None \<Rightarrow> 30000
                     | Some x \<Rightarrow> (case resetTimeout x of None \<Rightarrow> 30000 | Some n \<Rightarrow> n))"
  defines "mid \<equiv> (if rep then if timeout > 0 then scheduleStatusChange k Armed timeout w
                               else setTriggerStatus k Armed w
                   else setTriggerStatus k Completed w)"
    and "r \<equiv> completeTrigger k t al w"
  shows
  "(getTriggerStatus w k \<noteq> Triggered \<longrightarrow> r = w)
   \<and> (getTriggerStatus w k = Triggered \<longrightarrow>
        r = persistSessionState (updateDependentTriggers k (orSessionObjects al w) mid)
        \<and> (\<not> rep \<longrightarrow> triggerStatus r k = Some Completed)
        \<and> (rep \<and> timeout \<le> 0 \<longrightarrow>
             triggerStatus r k = Some Armed
             \<and> (\<forall>x. oid x = k \<longrightarrow> fst (processTriggerActivation x al2 r) = True))
        \<and> (rep \<and> timeout > 0 \<longrightarrow>
             triggerStatus r k = Some Triggered
             \<and> (nextTimerId w, now w + timeout, StatusChangeCb k Armed) \<in> set (timers r)
             \<and> (timersFresh w \<longrightarrow>
                   triggerStatus (fireTimer (nextTimerId w) r) k = Some Armed
                   \<and> now (fireTimer (nextTimerId w) r) = now w + timeout
                   \<and> (\<forall>x. oid x = k \<longrightarrow>
                         fst (processTriggerActivation x al2 (fireTimer (nextTimerId w) r))
                           = True)))
        \<and> (\<forall>j. j \<noteq> k \<longrightarrow>
              triggerStatus r j =
                (if getTriggerStatus w j = Idle \<and>
                    (\<exists>d\<in>set (orSessionObjects al w).
                        oid d = j \<and> fst (evaluateArmCondition d al mid))
                 then Some Armed else triggerStatus w j))
        \<and> storage r =
            (if storageWritable w
             then Some \<lparr>snapTriggerStatus = triggerStatus r,
                        snapStatusChangedAt = statusChangedAt r,
                        snapTimestamp = now w\<rparr>
             else storage w))"
proof (cases "getTriggerStatus w k = Triggered")
  case False
  then show ?thesis by (simp add: r_def completeTrigger_noop)
next
  case True
  define objs where "objs = orSessionObjects al w"
  define w2 where "w2 = updateDependentTriggers k objs mid"
  have r: "r = persistSessionState w2"
    unfolding r_def w2_def objs_def mid_def rep_def timeout_def obj_def
    by (simp add: completeTrigger_unfold[OF True] split: option.splits)
  have midst: "triggerStatus mid =
      (if rep then if timeout > 0 then triggerStatus w else (triggerStatus w)(k \<mapsto> Armed)
       else (triggerStatus w)(k \<mapsto> Completed))"
    by (simp add: mid_def setTriggerStatus_fields scheduleStatusChange_fields)
  have midfr: "now mid = now w" "storageWritable mid = storageWritable w"
    "storage mid = storage w"
    by (simp_all add: mid_def setTriggerStatus_fields scheduleStatusChange_fields)
  have st2: "triggerStatus w2 j =
     (if j \<noteq> k \<and> getTriggerStatus mid j = Idle \<and>
         (\<exists>d\<in>set objs. oid d = j \<and> fst (evaluateArmCondition d al mid))
      then Some Armed else triggerStatus mid j)" for j
    unfolding w2_def by (rule updateDependentTriggers_status)
  have wk: "triggerStatus w k = Some Triggered"
    using True by (simp add: getTriggerStatus_def split: option.splits)
  have own: "triggerStatus r k =
      (if rep then if timeout > 0 then Some Triggered else Some Armed else Some Completed)"
    by (simp add: r persistSessionState_fields st2 midst wk)
  have others: "triggerStatus r j =
                (if getTriggerStatus w j = Idle \<and>
                    (\<exists>d\<in>set objs. oid d = j \<and> fst (evaluateArmCondition d al mid))
                 then Some Armed else triggerStatus w j)" if "j \<noteq> k" for j
    using that by (auto simp add: r persistSessionState_fields st2 midst getTriggerStatus_def)
  have fr: "storageWritable w2 = storageWritable w" "now w2 = now w" "storage w2 = storage w"
    by (simp_all add: w2_def updateDependentTriggers_def updateDependentLoop_frame midfr)
  have sto: "storage r =
            (if storageWritable w
             then Some \<lparr>snapTriggerStatus = triggerStatus r,
                        snapStatusChangedAt = statusChangedAt r,
                        snapTimestamp = now w\<rparr>
             else storage w)"
    by (simp add: r persistSessionState_storage persistSessionState_fields fr)
  have again0: "fst (processTriggerActivation x al2 r) = True"
    if "rep \<and> timeout \<le> 0" "oid x = k" for x
    using that own by (simp add: processTriggerActivation_fst getTriggerStatus_def)
  have sched: "(nextTimerId w, now w + timeout, StatusChangeCb k Armed) \<in> set (timers r)
      \<and> (timersFresh w \<longrightarrow>
            triggerStatus (fireTimer (nextTimerId w) r) k = Some Armed
            \<and> now (fireTimer (nextTimerId w) r) = now w + timeout
            \<and> (\<forall>x. oid x = k \<longrightarrow>
                  fst (processTriggerActivation x al2 (fireTimer (nextTimerId w) r)) = True))"
    if rt: "rep \<and> timeout > 0"
  proof -
    have m: "mid = scheduleStatusChange k Armed timeout w" using rt by (simp add: mid_def)
    obtain pre where pre: "timers mid = pre @ [(nextTimerId w, now w + max 0 timeout,
         StatusChangeCb k Armed)]" "set pre \<subseteq> set (timers w)"
      using scheduleStatusChange_timers[of k Armed timeout w] unfolding m by blast
    obtain ext where "timers w2 = timers mid @ ext"
      using updateDependentLoop_timers_append[of k objs objs mid]
      by (auto simp add: w2_def updateDependentTriggers_def)
    then have tr: "timers r = pre @ (nextTimerId w, now w + timeout, StatusChangeCb k Armed) # ext"
      using pre rt by (simp add: r persistSessionState_fields)
    have mem: "(nextTimerId w, now w + timeout, StatusChangeCb k Armed) \<in> set (timers r)"
      by (simp add: tr)
    have fired: "triggerStatus (fireTimer (nextTimerId w) r) k = Some Armed
            \<and> now (fireTimer (nextTimerId w) r) = now w + timeout
            \<and> (\<forall>x. oid x = k \<longrightarrow>
                  fst (processTriggerActivation x al2 (fireTimer (nextTimerId w) r)) = True)"
      if f: "timersFresh w"
    proof -
      have "list_all (\<lambda>e. fst e < nextTimerId w) pre"
        using f pre(2) by (auto simp add: timersFresh_def list_all_iff)
      then have "find (\<lambda>e. fst e = nextTimerId w) (timers r)
         = Some (nextTimerId w, now w + timeout, StatusChangeCb k Armed)"
        unfolding tr by (rule find_fresh)
      note ft = fireTimer_found[OF this]
      have nr: "now r = now w" by (simp add: r persistSessionState_fields fr)
      have a: "triggerStatus (fireTimer (nextTimerId w) r) k = Some Armed"
        unfolding ft by (simp add: runCallback_StatusChange_status del: runCallback.simps)
      have b: "now (fireTimer (nextTimerId w) r) = now w + timeout"
        unfolding ft using rt
        by (simp add: runCallback_StatusChange_status nr del: runCallback.simps)
      from a have "fst (processTriggerActivation x al2 (fireTimer (nextTimerId w) r)) = True"
        if "oid x = k" for x
        using that by (simp add: processTriggerActivation_fst getTriggerStatus_def)
      with a b show ?thesis by blast
    qed
    from mem fired show ?thesis by blast
  qed
  show ?thesis
  proof (intro conjI impI allI)
    assume "getTriggerStatus w k \<noteq> Triggered"
    with True show "r = w" by simp
  next
    show "r = persistSessionState (updateDependentTriggers k (orSessionObjects al w) mid)"
      by (simp add: r w2_def objs_def)
  next
    assume "\<not> rep"
    then show "triggerStatus r k = Some Completed" by (simp add: own)
  next
    assume "rep \<and> timeout \<le> 0"
    then show "triggerStatus r k = Some Armed" by (simp add: own)
  next
    fix x :: MediaObject assume "rep \<and> timeout \<le> 0" "oid x = k"
    then show "fst (processTriggerActivation x al2 r) = True" by (rule again0)
  next
    assume "rep \<and> 0 < timeout"
    then show "triggerStatus r k = Some Triggered" by (simp add: own)
  next
    assume "rep \<and> 0 < timeout"
    then show "(nextTimerId w, now w + timeout, StatusChangeCb k Armed) \<in> set (timers r)"
      using sched by blast
  next
    assume "rep \<and> 0 < timeout" "timersFresh w"
    then show "triggerStatus (fireTimer (nextTimerId w) r) k = Some Armed"
      using sched by blast
  next
    assume "rep \<and> 0 < timeout" "timersFresh w"
    then show "now (fireTimer (nextTimerId w) r) = now w + timeout"
      using sched by blast
  next
    fix x :: MediaObject assume "rep \<and> 0 < timeout" "timersFresh w" "oid x = k"
    then show "fst (processTriggerActivation x al2 (fireTimer (nextTimerId w) r)) = True"
      using sched by blast
  next
    fix j assume "j \<noteq> k"
    then show "triggerStatus r j =
                (if getTriggerStatus w j = Idle \<and>
                    (\<exists>d\<in>set (orSessionObjects al w).
                        oid d = j \<and> fst (evaluateArmCondition d al mid))
                 then Some Armed else triggerStatus w j)"
      using others by (simp add: objs_def)
  next
    show "storage r =
            (if storageWritable w
             then Some \<lparr>snapTriggerStatus = triggerStatus r,
                        snapStatusChangedAt = statusChangedAt r,
                        snapTimestamp = now w\<rparr>
             else storage w)" by (rule sto)
  qed
qed


lemma repeatableWorld_eq:
  "repeatableWorld =
     \<lparr>now = 0, timers = [(1, 1000, AutoDeactivateCb ''R'')], nextTimerId = 2,
      storage = Some \<lparr>snapTriggerStatus = [''R'' \<mapsto> Triggered],
                      snapStatusChangedAt = [''R'' \<mapsto> 0], snapTimestamp = 0\<rparr>,
      storageWritable = True,
      triggerStatus = [''R'' \<mapsto> Triggered], statusChangedAt = [''R'' \<mapsto> 0],
      pendingTimers = [], objects = [repeatableObject],
      statusLog = [(''R'', Triggered, Some Armed)],
      activeObjects = {''R''}, dismissedObjects = {},
      listeners = {0}, received = (\<lambda>l. if l = 0 then [repeatableObject] else []),
      timerTimeouts = []\<rparr>"
  by (simp add: repeatableWorld_def listeningWorld_def initialWorld_def onTriggerActivation_def
        initializeSession_def clearAllTimers_def restoreSessionState_def
        notifyActivation_def callListeners_def chain_defs Let_def
        repeatableObject_def plainObject_def cong: if_cong)

theorem completeTrigger_spec_witness:
  "getTriggerStatus repeatableWorld ''R'' = Triggered \<and>
   timersFresh repeatableWorld \<and>
   repeatable repeatableObject = Some True \<and>
   resetTimeout repeatableObject = Some 1000 \<and>
   triggerStatus (completeTrigger ''R'' (Some repeatableObject) None repeatableWorld) ''R''
     = Some Triggered \<and>
   (2, 1000, StatusChangeCb ''R'' Armed)
     \<in> set (timers (completeTrigger ''R'' (Some repeatableObject) None repeatableWorld)) \<and>
   triggerStatus
     (fireTimer 2 (completeTrigger ''R'' (Some repeatableObject) None repeatableWorld)) ''R''
     = Some Armed \<and>
   now (fireTimer 2 (completeTrigger ''R'' (Some repeatableObject) None repeatableWorld))
     = 1000 \<and>
   fst (processTriggerActivation repeatableObject None
         (fireTimer 2 (completeTrigger ''R'' (Some repeatableObject) None repeatableWorld)))
     = True \<and>
   triggerStatus
     (completeTrigger ''R'' (Some (repeatableObject\<lparr>resetTimeout := Some 0\<rparr>)) None
        repeatableWorld) ''R'' = Some Armed \<and>
   triggerStatus
     (completeTrigger ''R'' (Some (repeatableObject\<lparr>repeatable := None\<rparr>)) None
        repeatableWorld) ''R'' = Some Completed \<and>
   getTriggerStatus chainWorld ''B'' \<noteq> Triggered \<and>
   completeTrigger ''B'' None None chainWorld = chainWorld"
proof -
  have h: "getTriggerStatus repeatableWorld ''R'' = Triggered" "timersFresh repeatableWorld"
    "nextTimerId repeatableWorld = 2" "now repeatableWorld = 0"
    by (simp_all add: repeatableWorld_eq getTriggerStatus_def timersFresh_def)
  have o: "repeatable repeatableObject = Some True" "resetTimeout repeatableObject = Some 1000"
    "oid repeatableObject = ''R''"
    by (simp_all add: repeatableObject_def plainObject_def)
  have b: "getTriggerStatus chainWorld ''B'' \<noteq> Triggered"
    by (simp add: chainWorld_eq getTriggerStatus_def)
  note T = completeTrigger_spec [where k = "''R''" and t = "Some repeatableObject"
             and al = None and w = repeatableWorld and ?al2.0 = None]
  from T h o have r:
   "triggerStatus (completeTrigger ''R'' (Some repeatableObject) None repeatableWorld) ''R''
     = Some Triggered \<and>
   (2, 1000, StatusChangeCb ''R'' Armed)
     \<in> set (timers (completeTrigger ''R'' (Some repeatableObject) None repeatableWorld)) \<and>
   triggerStatus
     (fireTimer 2 (completeTrigger ''R'' (Some repeatableObject) None repeatableWorld)) ''R''
     = Some Armed \<and>
   now (fireTimer 2 (completeTrigger ''R'' (Some repeatableObject) None repeatableWorld))
     = 1000 \<and>
   fst (processTriggerActivation repeatableObject None
         (fireTimer 2 (completeTrigger ''R'' (Some repeatableObject) None repeatableWorld)))
     = True"
    by auto
  have oz: "repeatable (repeatableObject\<lparr>resetTimeout := Some 0\<rparr>) = Some True"
    "resetTimeout (repeatableObject\<lparr>resetTimeout := Some 0\<rparr>) = Some 0"
    "repeatable (repeatableObject\<lparr>repeatable := None\<rparr>) = None"
    by (simp_all add: repeatableObject_def plainObject_def)
  from completeTrigger_spec [where k = "''R''"
         and t = "Some (repeatableObject\<lparr>resetTimeout := Some 0\<rparr>)"
         and al = None and w = repeatableWorld and ?al2.0 = None] h oz
  have z: "triggerStatus
     (completeTrigger ''R'' (Some (repeatableObject\<lparr>resetTimeout := Some 0\<rparr>)) None
        repeatableWorld) ''R'' = Some Armed"
    by auto
  from completeTrigger_spec [where k = "''R''"
         and t = "Some (repeatableObject\<lparr>repeatable := None\<rparr>)"
         and al = None and w = repeatableWorld and ?al2.0 = None] h oz
  have c: "triggerStatus
     (completeTrigger ''R'' (Some (repeatableObject\<lparr>repeatable := None\<rparr>)) None
        repeatableWorld) ''R'' = Some Completed"
    by auto
  from completeTrigger_spec [where k = "''B''" and t = None and al = None and w = chainWorld
         and ?al2.0 = None] b
  have n: "completeTrigger ''B'' None None chainWorld = chainWorld" by blast
  from h o b r n z c show ?thesis by simp
qed

subsection \<open>Unsatisfiable dependencies\<close>

lemma waitsFor_verdict:
  "d \<noteq> [] \<Longrightarrow> triggerStatus w d = None \<Longrightarrow> waitsFor d x \<Longrightarrow>
   evaluateArmCondition x a w = (False, w)"
  by (auto simp add: waitsFor_def evaluateArmCondition_def fired_def split: option.splits)

lemma benignCb_ok: "benignCb cb \<Longrightarrow> okCallback k d cb"
  by (cases cb) simp_all

lemma timersExtend_ok:
  assumes "timersExtend Q w w'" and "\<And>cb. Q cb \<Longrightarrow> okCallback k d cb"
    and "list_all (\<lambda>e. okCallback k d (snd (snd e))) (timers w)"
  shows "list_all (\<lambda>e. okCallback k d (snd (snd e))) (timers w')"
  using assms by (fastforce simp add: timersExtend_def list_all_iff)

lemma dependencyInvI:
  assumes "dependencyInv k d w"
    and "triggerStatus w' k = triggerStatus w k" "triggerStatus w' d = triggerStatus w d"
    and "objects w' = objects w"
    and "timersExtend Q w w'" "\<And>cb. Q cb \<Longrightarrow> okCallback k d cb"
  shows "dependencyInv k d w'"
proof -
  have a: "list_all (\<lambda>e. okCallback k d (snd (snd e))) (timers w)"
    using assms(1) unfolding dependencyInv_def by blast
  have "list_all (\<lambda>e. okCallback k d (snd (snd e))) (timers w')"
    by (rule timersExtend_ok[OF assms(5) assms(6) a])
  then show ?thesis
    using assms(1-4) by (simp add: dependencyInv_def getTriggerStatus_def)
qed

lemma updateDependentTriggers_keeps:
  assumes d: "d \<noteq> []" and inv: "getTriggerStatus w k = Idle" "triggerStatus w d = None"
    and ok: "list_all (okObject k d) ts"
  shows "triggerStatus (updateDependentTriggers c ts w) k = triggerStatus w k"
    and "triggerStatus (updateDependentTriggers c ts w) d = triggerStatus w d"
proof -
  have nok: "\<not> fst (evaluateArmCondition t None w)" if "t \<in> set ts" "oid t = k" for t
  proof -
    from ok that have "waitsFor d t" by (auto simp add: list_all_iff okObject_def)
    from waitsFor_verdict[OF d inv(2) this] show ?thesis by simp
  qed
  have nod: "oid t \<noteq> d" if "t \<in> set ts" for t
    using ok that by (auto simp add: list_all_iff okObject_def)
  show "triggerStatus (updateDependentTriggers c ts w) k = triggerStatus w k"
    using nok by (auto simp add: updateDependentTriggers_status[where a = None])
  show "triggerStatus (updateDependentTriggers c ts w) d = triggerStatus w d"
    using nod by (auto simp add: updateDependentTriggers_status[where a = None])
qed

lemma updateDependentTriggers_objects:
  "objects (updateDependentTriggers c ts w) = objects w"
  by (simp add: updateDependentTriggers_def updateDependentLoop_frame)

lemma timersExtend_updateDependentTriggers:
  "timersExtend benignCb w (updateDependentTriggers c ts w)"
  unfolding updateDependentTriggers_def by (rule timersExtend_loop)

lemma inv_sweep:
  assumes "d \<noteq> []" "dependencyInv k d w" "list_all (okObject k d) ts"
  shows "dependencyInv k d (updateDependentTriggers c ts w)"
proof (rule dependencyInvI[OF assms(2)])
  have i: "getTriggerStatus w k = Idle" "triggerStatus w d = None"
    using assms(2) by (simp_all add: dependencyInv_def)
  show "triggerStatus (updateDependentTriggers c ts w) k = triggerStatus w k"
    by (rule updateDependentTriggers_keeps[OF assms(1) i assms(3)])
  show "triggerStatus (updateDependentTriggers c ts w) d = triggerStatus w d"
    by (rule updateDependentTriggers_keeps[OF assms(1) i assms(3)])
  show "objects (updateDependentTriggers c ts w) = objects w"
    by (rule updateDependentTriggers_objects)
  show "timersExtend benignCb w (updateDependentTriggers c ts w)"
    by (rule timersExtend_updateDependentTriggers)
qed (rule benignCb_ok)

lemma inv_setTriggerStatus:
  assumes "dependencyInv k d w" "j \<noteq> k" "j \<noteq> d"
  shows "dependencyInv k d (setTriggerStatus j s w)"
  by (rule dependencyInvI[OF assms(1), where Q = benignCb])
     (use assms in \<open>simp_all add: setTriggerStatus_fields timersExtend_setTriggerStatus
        benignCb_ok\<close>)

lemma inv_persist:
  "dependencyInv k d w \<Longrightarrow> dependencyInv k d (persistSessionState w)"
  by (erule dependencyInvI[where Q = benignCb])
     (simp_all add: persistSessionState_fields timersExtend_persist benignCb_ok)

lemma okList_session:
  "dependencyInv k d w \<Longrightarrow> okList k d al \<Longrightarrow> list_all (okObject k d) (orSessionObjects al w)"
  by (simp add: okList_def orSessionObjects_def dependencyInv_def split: option.splits)

lemma inv_processTriggerActivation:
  assumes d: "d \<noteq> []" and inv: "dependencyInv k d w"
    and ok: "okObject k d t" "okList k d al"
  shows "dependencyInv k d (snd (processTriggerActivation t al w))"
proof (cases "getTriggerStatus w (oid t) = Armed")
  case False
  then show ?thesis using inv by (simp add: processTriggerActivation_def)
next
  case True
  have "oid t \<noteq> k" using True inv by (auto simp add: dependencyInv_def)
  moreover have "oid t \<noteq> d" using ok(1) by (simp add: okObject_def)
  ultimately have i1: "dependencyInv k d (setTriggerStatus (oid t) Triggered w)"
    using inv by (simp add: inv_setTriggerStatus)
  have "list_all (okObject k d) (orSessionObjects al w)"
    using inv ok(2) by (rule okList_session)
  with d i1 have "dependencyInv k d
      (updateDependentTriggers (oid t) (orSessionObjects al w)
         (setTriggerStatus (oid t) Triggered w))"
    by (rule inv_sweep)
  then show ?thesis
    by (simp add: processTriggerActivation_armed[OF True] inv_persist)
qed


lemma inv_not_triggered:
  assumes "dependencyInv k d w" "getTriggerStatus w j = Triggered \<or> getTriggerStatus w j = Armed"
  shows "j \<noteq> k" "j \<noteq> d"
  using assms by (auto simp add: dependencyInv_def getTriggerStatus_def)

lemma timersExtend_scheduleStatusChange:
  "timersExtend (\<lambda>cb. cb = StatusChangeCb j s) w (scheduleStatusChange j s dl w)"
  by (auto simp add: timersExtend_def list_all_iff scheduleStatusChange_def setTimeout_def
        clearTimeout_def Let_def split: option.splits)

lemma inv_scheduleStatusChange:
  assumes "dependencyInv k d w" "j \<noteq> k" "j \<noteq> d"
  shows "dependencyInv k d (scheduleStatusChange j s dl w)"
  by (rule dependencyInvI[OF assms(1), where Q = "\<lambda>cb. cb = StatusChangeCb j s"])
     (use assms in \<open>simp_all add: scheduleStatusChange_fields timersExtend_scheduleStatusChange\<close>)

lemma inv_completeTrigger:
  assumes d: "d \<noteq> []" and inv: "dependencyInv k d w" and ok: "okList k d al"
  shows "dependencyInv k d (completeTrigger j t al w)"
proof (cases "getTriggerStatus w j = Triggered")
  case False
  then show ?thesis using inv by (simp add: completeTrigger_noop)
next
  case True
  have j: "j \<noteq> k" "j \<noteq> d" using inv_not_triggered[OF inv] True by simp_all
  define mid where "mid =
     (case (case t of None \<Rightarrow> find (\<lambda>x. oid x = j) (objects w) | Some x \<Rightarrow> Some x) of
             None \<Rightarrow> setTriggerStatus j Completed w
           | Some x \<Rightarrow>
               if repeatable x = Some True
               then if (case resetTimeout x of None \<Rightarrow> 30000 | Some n \<Rightarrow> n) > 0
                    then scheduleStatusChange j Armed
                           (case resetTimeout x of None \<Rightarrow> 30000 | Some n \<Rightarrow> n) w
                    else setTriggerStatus j Armed w
               else setTriggerStatus j Completed w)"
  have m: "dependencyInv k d mid"
    unfolding mid_def using inv j
    by (simp add: inv_setTriggerStatus inv_scheduleStatusChange split: option.splits)
  have "list_all (okObject k d) (orSessionObjects al w)"
    using inv ok by (rule okList_session)
  with d m have "dependencyInv k d (updateDependentTriggers j (orSessionObjects al w) mid)"
    by (rule inv_sweep)
  then show ?thesis
    unfolding completeTrigger_unfold[OF True] mid_def[symmetric] by (rule inv_persist)
qed

lemma inv_activationTail:
  "dependencyInv k d v \<Longrightarrow> dependencyInv k d (activationTail obj v)"
  by (erule dependencyInvI[where Q = benignCb])
     (simp_all add: activationTail_frame timersExtend_activationTail benignCb_ok)

lemma inv_notifyActivation:
  assumes "d \<noteq> []" "dependencyInv k d w" "okObject k d x" "okList k d al"
  shows "dependencyInv k d (notifyActivation x al w)"
  unfolding notifyActivation_unfold
  using assms by (simp add: inv_activationTail inv_processTriggerActivation)

lemma inv_evaluateArmCondition:
  "dependencyInv k d w \<Longrightarrow> dependencyInv k d (snd (evaluateArmCondition t a w))"
  by (erule dependencyInvI[where Q = benignCb])
     (simp_all add: evaluateArmCondition_frame timersExtend_evaluateArmCondition benignCb_ok)

lemma inv_updates:
  "dependencyInv k d (w\<lparr>pendingTimers := p\<rparr>) = dependencyInv k d w"
  "dependencyInv k d (w\<lparr>timerTimeouts := q\<rparr>) = dependencyInv k d w"
  "dependencyInv k d (w\<lparr>activeObjects := a\<rparr>) = dependencyInv k d w"
  "dependencyInv k d (w\<lparr>now := n\<rparr>) = dependencyInv k d w"
  by (simp_all add: dependencyInv_def getTriggerStatus_def)

lemma inv_filter_timers:
  "dependencyInv k d w \<Longrightarrow> dependencyInv k d (w\<lparr>timers := filter P (timers w)\<rparr>)"
  by (simp add: dependencyInv_def getTriggerStatus_def list_all_iff)

lemma find_oid: "find (\<lambda>x. oid x = j) xs = Some t \<Longrightarrow> t \<in> set xs \<and> oid t = j"
  by (induction xs) (auto split: if_splits)

lemma inv_runCallback:
  assumes d: "d \<noteq> []" and inv: "dependencyInv k d w" and ok: "okCallback k d cb"
  shows "dependencyInv k d (runCallback cb w)"
proof (cases cb)
  case (StatusChangeCb j s)
  with ok have "j \<noteq> k" "j \<noteq> d" by simp_all
  then show ?thesis
    using inv by (simp add: StatusChangeCb Let_def inv_persist inv_updates inv_setTriggerStatus)
next
  case (ArmEvaluationCb j)
  have "dependencyInv k d
     (case find (\<lambda>x. oid x = j) (objects w) of
        None \<Rightarrow> w
      | Some t \<Rightarrow>
          if getTriggerStatus w j = Idle
          then (let (ok, v) = evaluateArmCondition t None w in
                if ok then persistSessionState (setTriggerStatus j Armed v) else v)
          else w)"
  proof (cases "find (\<lambda>x. oid x = j) (objects w)")
    case None
    then show ?thesis using inv by simp
  next
    case (Some t)
    then have t: "t \<in> set (objects w)" "oid t = j" using find_oid by blast+
    with inv have okt: "okObject k d t" by (auto simp add: dependencyInv_def list_all_iff)
    have dn: "triggerStatus w d = None" using inv by (simp add: dependencyInv_def)
    show ?thesis
    proof (cases "j = k")
      case True
      with okt t have "waitsFor d t" by (simp add: okObject_def)
      from waitsFor_verdict[OF d dn this] show ?thesis using Some inv by simp
    next
      case False
      moreover have "j \<noteq> d" using okt t by (simp add: okObject_def)
      ultimately show ?thesis
        using Some inv
        by (simp add: case_prod_beta inv_persist inv_setTriggerStatus inv_evaluateArmCondition)
    qed
  qed
  then show ?thesis by (simp add: ArmEvaluationCb Let_def inv_updates)
next
  case (AutoDeactivateCb j)
  then show ?thesis using inv by (simp add: inv_updates)
next
  case (TimerTriggerCb x)
  with ok have "okObject k d x" by simp
  with d inv have "dependencyInv k d (notifyActivation x None w)"
    by (rule inv_notifyActivation) (simp add: okList_def)
  then show ?thesis by (simp add: TimerTriggerCb Let_def inv_updates)
qed

lemma find_fst: "find (\<lambda>e. fst e = n) xs = Some e \<Longrightarrow> e \<in> set xs"
  by (induction xs) (auto split: if_splits)

lemma inv_fireTimer:
  assumes d: "d \<noteq> []" and inv: "dependencyInv k d w"
  shows "dependencyInv k d (fireTimer n w)"
proof (cases "find (\<lambda>e. fst e = n) (timers w)")
  case None
  then show ?thesis using inv by (simp add: fireTimer_def)
next
  case (Some e)
  obtain i due cb where e: "e = (i, due, cb)" by (cases e)
  have "e \<in> set (timers w)" using Some by (rule find_fst)
  with inv e have ok: "okCallback k d cb" by (auto simp add: dependencyInv_def list_all_iff)
  have "dependencyInv k d
     (w\<lparr>timers := filter (\<lambda>e. fst e \<noteq> n) (timers w), now := max (now w) due\<rparr>)"
    using inv by (simp add: inv_updates inv_filter_timers)
  with d have "dependencyInv k d (runCallback cb
     (w\<lparr>timers := filter (\<lambda>e. fst e \<noteq> n) (timers w), now := max (now w) due\<rparr>))"
    using ok by (rule inv_runCallback)
  then show ?thesis using Some e by (simp add: fireTimer_def)
qed

lemma inv_step:
  assumes "d \<noteq> []" "dependencyInv k d w" "okEvent k d ev"
  shows "dependencyInv k d (step ev w)"
proof (cases ev)
  case (Sweep j xs)
  then show ?thesis using assms by (simp add: inv_sweep)
qed (use assms in \<open>simp_all add: inv_processTriggerActivation inv_completeTrigger
       inv_notifyActivation inv_fireTimer inv_updates\<close>)

lemma inv_run:
  assumes "d \<noteq> []" "dependencyInv k d w" "list_all (okEvent k d) evs"
  shows "dependencyInv k d (run evs w)"
  using assms(2,3) unfolding run_def
  by (induction evs arbitrary: w) (simp_all add: inv_step[OF assms(1)])

text \<open>
  The invariant holds after a cold start: \<open>initializeSession\<close> with no stored snapshot,
  on objects none of which has the id \<open>d\<close>.
\<close>

lemma fold_clearTimeout_frame:
  "objects (fold (\<lambda>e. clearTimeout (snd e)) l w) = objects w"
  "storage (fold (\<lambda>e. clearTimeout (snd e)) l w) = storage w"
  by (induction l arbitrary: w) (simp_all add: clearTimeout_def)

lemma fold_clearTimeout_timers:
  "set (timers (fold (\<lambda>e. clearTimeout (snd e)) l w)) \<subseteq> set (timers w)"
proof (induction l arbitrary: w)
  case Nil
  show ?case by simp
next
  case (Cons e l)
  have "set (timers (clearTimeout (snd e) w)) \<subseteq> set (timers w)"
    by (auto simp add: clearTimeout_def)
  with Cons.IH[of "clearTimeout (snd e) w"] show ?case by auto
qed

lemma fold_invariant:
  assumes "\<And>t v. P t \<Longrightarrow> I v \<Longrightarrow> I (f t v)" and "I v" and "list_all P ts"
  shows "I (fold f ts v)"
  using assms(2,3) by (induction ts arbitrary: v) (simp_all add: assms(1))

lemma initial_status_inv:
  assumes d: "d \<noteq> []" and okt: "okObject k d t" and inv: "dependencyInv k d v"
  shows "dependencyInv k d
           (let (ok, v1) = evaluateArmCondition t (Some al) v in
            v1\<lparr>triggerStatus := (triggerStatus v1)(oid t \<mapsto> (if ok then Armed else Idle))\<rparr>)"
proof -
  define v1 where "v1 = snd (evaluateArmCondition t (Some al) v)"
  have i1: "dependencyInv k d v1"
    unfolding v1_def using inv by (rule inv_evaluateArmCondition)
  have dn: "triggerStatus v d = None" using inv by (simp add: dependencyInv_def)
  have nd: "oid t \<noteq> d" using okt by (simp add: okObject_def)
  have verdict: "\<not> fst (evaluateArmCondition t (Some al) v)" if "oid t = k"
  proof -
    from okt that have "waitsFor d t" by (simp add: okObject_def)
    from waitsFor_verdict[OF d dn this] show ?thesis by simp
  qed
  have "dependencyInv k d (v1\<lparr>triggerStatus := (triggerStatus v1)
       (oid t \<mapsto> (if fst (evaluateArmCondition t (Some al) v) then Armed else Idle))\<rparr>)"
    using i1 nd verdict
    by (auto simp add: dependencyInv_def getTriggerStatus_def)
  then show ?thesis by (simp add: v1_def case_prod_beta)
qed

lemma dependencyInv_cold_start:
  assumes d: "d \<noteq> []"
    and ok: "list_all (okObject k d) objs"
    and cold: "storage w = None"
    and tm: "list_all (\<lambda>e. okCallback k d (snd (snd e))) (timers w)"
  shows "dependencyInv k d (initializeSession objs w)"
proof -
  define w1 where "w1 = clearAllTimers
                 (w\<lparr>triggerStatus := Map.empty, statusChangedAt := Map.empty,
                    objects := objs\<rparr>)"
  have f: "triggerStatus w1 = Map.empty" "objects w1 = objs" "storage w1 = None"
    "set (timers w1) \<subseteq> set (timers w)"
    using cold fold_clearTimeout_timers[of "pendingTimers w"
        "w\<lparr>triggerStatus := Map.empty, statusChangedAt := Map.empty, objects := objs\<rparr>"]
    by (simp_all add: w1_def clearAllTimers_def fold_clearTimeout_frame
          fold_clearTimeout_status)
  have "list_all (\<lambda>e. okCallback k d (snd (snd e))) (timers w1)"
    using tm f(4) by (auto simp add: list_all_iff)
  then have i: "dependencyInv k d w1"
    using f ok by (simp add: dependencyInv_def getTriggerStatus_def)
  have r: "restoreSessionState w1 = (False, w1)"
    using f(3) by (simp add: restoreSessionState_def)
  have "dependencyInv k d
     (fold (\<lambda>t v. (let (ok, v1) = evaluateArmCondition t (Some objs) v in
                      v1\<lparr>triggerStatus :=
                           (triggerStatus v1)(oid t \<mapsto> (if ok then Armed else Idle))\<rparr>))
        objs w1)"
  proof (rule fold_invariant[where P = "okObject k d" and I = "dependencyInv k d"])
    show "dependencyInv k d w1" by (rule i)
    show "list_all (okObject k d) objs" by (rule ok)
  qed (rule initial_status_inv[OF d])
  then show ?thesis
    by (simp add: initializeSession_def w1_def[symmetric] r)
qed

text \<open>
  C6. Let an object carry an \<^verbatim>\<open>afterTrigger\<close> condition naming a non-empty id \<open>d\<close>.
  Suppose that \<open>d\<close> has no status, that the object is idle, that no object of the
  session has the id \<open>d\<close>, that every object with this object's id carries the same
  kind of condition on \<open>d\<close>, and that no pending status change targets either id
  (\<open>dependencyInv\<close>, which holds after a cold start). Then after every sequence of activations, completions,
  notifications, sweeps, timer deliveries and clock advances over such objects
  (\<open>okEvent\<close>), \<open>evaluateArmCondition\<close> returns false for the object and changes
  nothing, the object is still idle, and \<open>d\<close> still has no status.
\<close>

theorem unsatisfiable_dependency_stays_idle:
  assumes "armCondition obj = Some c" "ctype c = AfterTrigger" "triggerId c = Some d"
    and "d \<noteq> []"
    and "dependencyInv (oid obj) d w"
    and "list_all (okEvent (oid obj) d) evs"
  shows "evaluateArmCondition obj al (run evs w) = (False, run evs w)
       \<and> getTriggerStatus (run evs w) (oid obj) = Idle
       \<and> triggerStatus (run evs w) d = None"
proof -
  have inv: "dependencyInv (oid obj) d (run evs w)"
    using assms(4-6) by (rule inv_run)
  then have s: "getTriggerStatus (run evs w) (oid obj) = Idle" "triggerStatus (run evs w) d = None"
    by (simp_all add: dependencyInv_def)
  have "waitsFor d obj" using assms(1-3) by (simp add: waitsFor_def)
  from waitsFor_verdict[OF assms(4) s(2) this] s show ?thesis by simp
qed


lemma ghostWorld_eq:
  "ghostWorld =
     \<lparr>now = 0, timers = [], nextTimerId = 1, storage = None, storageWritable = True,
      triggerStatus = [''A'' \<mapsto> Armed, ''G'' \<mapsto> Idle],
      statusChangedAt = Map.empty, pendingTimers = [],
      objects = [objA, ghostObject], statusLog = [], activeObjects = {}, dismissedObjects = {},
      listeners = {0}, received = (\<lambda>l. []), timerTimeouts = []\<rparr>"
  by (simp add: ghostWorld_def listeningWorld_def initialWorld_def onTriggerActivation_def
        initializeSession_def clearAllTimers_def restoreSessionState_def
        evaluateArmCondition_def fired_def objA_def ghostObject_def plainObject_def
        afterTrigger_def)

lemma ghostEvents_run:
  "triggerStatus (run ghostEvents ghostWorld) ''A'' = Some Completed"
  "received (run ghostEvents ghostWorld) 0 = [objA]"
  "now (run ghostEvents ghostWorld) = 30005"
  by (simp_all add: run_def ghostEvents_def ghostWorld_eq coord_defs chain_defs Let_def
        objA_def ghostObject_def plainObject_def afterTrigger_def)

theorem unsatisfiable_dependency_stays_idle_witness:
  "armCondition ghostObject = Some (afterTrigger ''ghost'') \<and>
   dependencyInv (oid ghostObject) ''ghost'' ghostWorld \<and>
   list_all (okEvent (oid ghostObject) ''ghost'') ghostEvents \<and>
   evaluateArmCondition ghostObject None (run ghostEvents ghostWorld)
     = (False, run ghostEvents ghostWorld) \<and>
   getTriggerStatus (run ghostEvents ghostWorld) (oid ghostObject) = Idle \<and>
   triggerStatus (run ghostEvents ghostWorld) ''ghost'' = None \<and>
   triggerStatus (run ghostEvents ghostWorld) ''A'' = Some Completed \<and>
   now (run ghostEvents ghostWorld) = 30005"
proof -
  have c: "armCondition ghostObject = Some (afterTrigger ''ghost'')"
    "ctype (afterTrigger ''ghost'') = AfterTrigger"
    "triggerId (afterTrigger ''ghost'') = Some ''ghost''" "''ghost'' \<noteq> []"
    by (simp_all add: ghostObject_def plainObject_def afterTrigger_def)
  have i: "dependencyInv (oid ghostObject) ''ghost'' ghostWorld"
    unfolding ghostWorld_def
    by (rule dependencyInv_cold_start)
       (simp_all add: okObject_def waitsFor_def objA_def ghostObject_def plainObject_def
          afterTrigger_def listeningWorld_def initialWorld_def onTriggerActivation_def)
  have e: "list_all (okEvent (oid ghostObject) ''ghost'') ghostEvents"
    by (simp add: ghostEvents_def okObject_def okList_def waitsFor_def objA_def
          ghostObject_def plainObject_def afterTrigger_def)
  from unsatisfiable_dependency_stays_idle [OF c i e, of None] c i e
  show ?thesis by (simp add: ghostEvents_run)
qed

end
